theory Spec2Isabelle
  imports Main "HOL-Library.Char_ord" "HOL-Library.List_Lexorder" "HOL-Library.Product_Lexorder"
begin

section \<open>Results and errors\<close>

text \<open>
  The C++ code reports every failure as \<^verbatim>\<open>std::unexpected\<close> of a formatted message inside
  \<^verbatim>\<open>Result<T> = std::expected<T, std::string>\<close>. The model keeps one constructor per message and
  the values the message is formatted from.
\<close>

datatype error =
    ExpectedIdentifierEmpty
  | NonAlphabetic char nat
  | ExpectedMore
  | ExpectedComma char nat
  | UnexpectedEnd
  | OutOfRange
  | Invalid string string error
  | Duplicate string
  | ClassDoesNotExist string
  | ClassAlreadyExists string
  | NewClassAlreadyExists
  | FieldDoesNotExist string
  | NewFieldAlreadyExists
  | NewFieldNameInUse
  | MethodDoesNotExist
  | MethodSignatureAlreadyExists
  | NewMethodSignatureAlreadyExists
  | AddingDuplicateParameter
  | MethodParameterDoesNotExist string
  | RelationshipDoesNotExist string string
  | RelationshipAlreadyExists
  | RelationshipBetweenAlreadyExists string string
  | NonexistentRelationshipClasses
  | InvalidRelationshipType string
  | JsonException
  | LoadError error
  | CannotReadFile string
  | CannotUndo
  | CannotRedo
  | NoPriorState

type_synonym 'a Result = "error + 'a"

section \<open>utils: the grammar of identifiers and type expressions\<close>

text \<open>
  \<^verbatim>\<open>InRange<Lo, Hi>(c)\<close> compares \<^verbatim>\<open>char\<close>s. Both bounds of every use are ASCII, so the signed
  and the unsigned reading of \<^verbatim>\<open>char\<close> agree; the model compares the unsigned code.
\<close>

definition InRange :: "char \<Rightarrow> char \<Rightarrow> char \<Rightarrow> bool" where
  "InRange Lo Hi c = (Lo \<le> c \<and> c \<le> Hi)"

definition Alpha :: "char \<Rightarrow> bool" where
  "Alpha c = (InRange CHR ''a'' CHR ''z'' c \<or> InRange CHR ''A'' CHR ''Z'' c \<or> c = CHR ''_'')"

definition Digit :: "char \<Rightarrow> bool" where
  "Digit c = InRange CHR ''0'' CHR ''9'' c"

definition AlNum :: "char \<Rightarrow> bool" where
  "AlNum c = (Alpha c \<or> Digit c)"

text \<open>The loop \<^verbatim>\<open>while (start < t.size() and P(t[start])) ++start;\<close> and its final index.\<close>

function scan_while :: "(char \<Rightarrow> bool) \<Rightarrow> string \<Rightarrow> nat \<Rightarrow> nat" where
  "scan_while P t start =
     (if start < length t \<and> P (t ! start) then scan_while P t (start + 1) else start)"
  by pat_completeness auto
termination
  by (relation "measure (\<lambda>(P, t, start). length t - start)") auto

declare scan_while.simps [simp del]

text \<open>
  \<^verbatim>\<open>ValidIdentifier(t, start)\<close>. Reading \<^verbatim>\<open>t[start]\<close> past the end is undefined in C++; the
  model answers \<open>OutOfRange\<close> there. No caller in the program passes such an offset.
\<close>

definition ValidIdentifier :: "string \<Rightarrow> nat \<Rightarrow> nat Result" where
  "ValidIdentifier t start =
     (if start = length t then Inl ExpectedIdentifierEmpty
      else if length t < start then Inl OutOfRange
      else if \<not> Alpha (t ! start) then Inl (NonAlphabetic (t ! start) start)
      else Inr (scan_while AlNum t (start + 1)))"

text \<open>The \<^verbatim>\<open>switch\<close> of \<^verbatim>\<open>ValidType\<close>: the closer pushed for each opening bracket.\<close>

definition closer :: "char \<Rightarrow> char option" where
  "closer c =
     (if c = CHR ''['' then Some CHR '']''
      else if c = CHR ''('' then Some CHR '')''
      else if c = CHR ''<'' then Some CHR ''>''
      else None)"

definition is_star :: "char \<Rightarrow> bool" where
  "is_star c = (c = CHR ''*'')"

text \<open>
  \<^verbatim>\<open>ValidType(t, start)\<close> keeps its expected closers in a function-local \<^verbatim>\<open>static\<close> vector,
  shared by the recursive calls and by every later call. The model threads that vector
  through: \<open>ValidType_st t start stack\<close> returns the result and the vector as the call leaves
  it (its head is \<^verbatim>\<open>stack.back()\<close>). \<open>TypeList\<close> is the \<^verbatim>\<open>while (t[start] != stack.back())\<close>
  loop, entered with \<open>first = True\<close>. The return on a missing comma does not pop, as in
  the source. Reading past the end of \<open>t\<close>, or the back of an empty vector, is undefined in
  C++ and \<open>OutOfRange\<close> here; \<open>ValidType_st\<close> never reaches either.
\<close>

function ValidType_st :: "string \<Rightarrow> nat \<Rightarrow> char list \<Rightarrow> nat Result \<times> char list"
  and TypeList :: "string \<Rightarrow> nat \<Rightarrow> bool \<Rightarrow> char list \<Rightarrow> nat Result \<times> char list"
where
  "ValidType_st t start stack =
     (case ValidIdentifier t start of
        Inl e \<Rightarrow> (Inl e, stack)
      | Inr i \<Rightarrow>
          if i = length t then (Inr i, stack)
          else (case closer (t ! i) of
                  Some c \<Rightarrow>
                    if i + 1 = length t then (Inl ExpectedMore, stack)
                    else TypeList t (i + 1) True (c # stack)
                | None \<Rightarrow>
                    if t ! i = CHR ''*'' then (Inr (scan_while is_star t (i + 1)), stack)
                    else (Inr i, stack)))"
| "TypeList t start first stack =
     (case stack of
        [] \<Rightarrow> (Inl OutOfRange, stack)
      | back # rest \<Rightarrow>
          if length t \<le> start then (Inl OutOfRange, stack)
          else if t ! start \<noteq> back then
            (if \<not> first \<and> t ! start \<noteq> CHR '','' then (Inl (ExpectedComma (t ! start) start), stack)
             else
               (case ValidType_st t (if first then start else start + 1) stack of
                  (Inl e, stack') \<Rightarrow> (Inl e, tl stack')
                | (Inr start', stack') \<Rightarrow>
                    if start' = length t then (Inl UnexpectedEnd, tl stack')
                    else TypeList t start' False stack'))
          else (Inr (scan_while is_star t (start + 1)), rest))"
  by pat_completeness auto

lemma scan_while_ge: "start \<le> scan_while P t start"
  by (induction P t start rule: scan_while.induct) (subst scan_while.simps, auto)

lemma scan_while_le: "start \<le> length t \<Longrightarrow> scan_while P t start \<le> length t"
  by (induction P t start rule: scan_while.induct) (subst scan_while.simps, auto)

lemma ValidIdentifier_bounds:
  "ValidIdentifier t start = Inr i \<Longrightarrow> start < i \<and> i \<le> length t"
  using scan_while_ge [of "start + 1" AlNum t] scan_while_le [of "start + 1" t AlNum]
  by (auto simp: ValidIdentifier_def split: if_splits)

text \<open>
  The recursion is nested: the loop continues at the offset the recursive call returned.
  On its domain the function returns an offset beyond its start and within the text, which
  is what termination needs.
\<close>

lemma ValidType_st_TypeList_bounds:
  "ValidType_st_TypeList_dom (Inl (t, start, stack)) \<Longrightarrow>
      (\<forall>e s. ValidType_st t start stack = (Inr e, s) \<longrightarrow> start < e \<and> e \<le> length t)"
  "ValidType_st_TypeList_dom (Inr (t2, start2, first, stack2)) \<Longrightarrow>
      (\<forall>e s. TypeList t2 start2 first stack2 = (Inr e, s) \<longrightarrow> start2 < e \<and> e \<le> length t2)"
proof (induction t start stack and t2 start2 first stack2 rule: ValidType_st_TypeList.pinduct)
  case (1 t start stack)
  show ?case
  proof (intro allI impI)
    fix e s
    assume eq: "ValidType_st t start stack = (Inr e, s)"
    show "start < e \<and> e \<le> length t"
    proof (cases "ValidIdentifier t start")
      case (Inl err)
      with eq 1(1) show ?thesis by (simp add: ValidType_st.psimps)
    next
      case (Inr i)
      note b = ValidIdentifier_bounds [OF Inr]
      show ?thesis
      proof (cases "i = length t")
        case True
        with eq 1(1) Inr b show ?thesis by (simp add: ValidType_st.psimps)
      next
        case False
        show ?thesis
        proof (cases "closer (t ! i)")
          case None
          with eq 1(1) Inr False b
            scan_while_ge [of "i + 1" is_star t]
            scan_while_le [of "i + 1" t is_star]
          show ?thesis by (auto simp: ValidType_st.psimps split: if_splits)
        next
          case (Some c)
          show ?thesis
          proof (cases "i + 1 = length t")
            case True
            with eq 1(1) Inr False Some show ?thesis by (simp add: ValidType_st.psimps)
          next
            case F2: False
            from eq 1(1) Inr False Some F2
            have "TypeList t (i + 1) True (c # stack) = (Inr e, s)"
              by (simp add: ValidType_st.psimps)
            with 1(2) [OF Inr False Some F2] b show ?thesis by auto
          qed
        qed
      qed
    qed
  qed
next
  case (2 t start first stack)
  show ?case
  proof (intro allI impI)
    fix e s
    assume eq: "TypeList t start first stack = (Inr e, s)"
    show "start < e \<and> e \<le> length t"
    proof (cases stack)
      case Nil
      with eq 2(1) show ?thesis by (simp add: TypeList.psimps)
    next
      case (Cons cl rest)
      show ?thesis
      proof (cases "length t \<le> start")
        case True
        with eq 2(1) Cons show ?thesis by (simp add: TypeList.psimps)
      next
        case inb: False
        show ?thesis
        proof (cases "t ! start \<noteq> cl")
          case False
          with eq 2(1) Cons inb
            scan_while_ge [of "start + 1" is_star t]
            scan_while_le [of "start + 1" t is_star]
          show ?thesis by (auto simp: TypeList.psimps)
        next
          case nb: True
          show ?thesis
          proof (cases "\<not> first \<and> t ! start \<noteq> CHR '',''")
            case True
            with eq 2(1) Cons inb nb show ?thesis by (simp add: TypeList.psimps)
          next
            case ok: False
            obtain r st where call: "ValidType_st t (if first then start else start + 1) stack = (r, st)"
              by (cases "ValidType_st t (if first then start else start + 1) stack")
            show ?thesis
            proof (cases r)
              case (Inl err)
              with eq 2(1) Cons inb nb ok call show ?thesis
                by (auto simp: TypeList.psimps split: if_splits)
            next
              case (Inr e')
              from 2(2) [OF Cons inb nb ok] call Inr
              have b': "(if first then start else start + 1) < e' \<and> e' \<le> length t" by simp
              show ?thesis
              proof (cases "e' = length t")
                case True
                with eq 2(1) Cons inb nb ok call Inr show ?thesis
                  by (auto simp: TypeList.psimps split: if_splits)
              next
                case False
                from eq 2(1) Cons inb nb ok call Inr False
                have "TypeList t e' False st = (Inr e, s)"
                  by (auto simp: TypeList.psimps split: if_splits)
                with 2(3) [OF Cons inb nb ok call [symmetric] Inr False] b'
                show ?thesis by (auto split: if_splits)
              qed
            qed
          qed
        qed
      qed
    qed
  qed
qed

termination ValidType_st
proof (relation "measure (\<lambda>x. case x of
           Inl (t, start, stack) \<Rightarrow> 2 * (length t - start)
         | Inr (t, start, first, stack) \<Rightarrow> 2 * (length t - start) + 1)", goal_cases)
  case 1
  then show ?case by simp
next
  case (2 t start stack b x2)
  then show ?case using ValidIdentifier_bounds [of t start b] by auto
next
  case (3 t start first stack x21 x22)
  then show ?case by auto
next
  case (4 t start first stack x21 x22 x y b)
  from ValidType_st_TypeList_bounds(1) [OF 4(8)] 4(5,6)
  have "(if first then start else start + 1) < b \<and> b \<le> length t"
    by metis
  with 4 show ?case by (auto split: if_splits)
qed

declare ValidType_st.simps [simp del] TypeList.simps [simp del]

text \<open>
  The result of a call does not depend on what earlier calls left in the static vector
  (see \<open>ValidType_st_stack\<close> below), so the callers are modelled with the result of a call
  on the empty vector.
\<close>

definition ValidType :: "string \<Rightarrow> nat \<Rightarrow> nat Result" where
  "ValidType t start = fst (ValidType_st t start [])"

text \<open>The loop of \<^verbatim>\<open>ValidType\<close> with the closer \<open>c\<close> at the back of the vector, by its result.\<close>

definition TList :: "string \<Rightarrow> nat \<Rightarrow> bool \<Rightarrow> char \<Rightarrow> nat Result" where
  "TList t start first c = fst (TypeList t start first [c])"

text \<open>
  The grammar of the data model, to state the claims with. An identifier is a text that
  matches \<^verbatim>\<open>[A-Za-z_][A-Za-z0-9_]*\<close> in full. \<open>join_commas\<close> writes a list of texts with
  commas between them. A type expression is an identifier, optionally followed by stars,
  or an identifier followed by one of the three bracket pairs around zero or more
  comma-separated type expressions, optionally followed by stars. None of the three
  mentions \<^verbatim>\<open>ValidIdentifier\<close> or \<^verbatim>\<open>ValidType\<close>.
\<close>

definition is_Identifier :: "string \<Rightarrow> bool" where
  "is_Identifier s = (case s of [] \<Rightarrow> False | c # cs \<Rightarrow> Alpha c \<and> list_all AlNum cs)"

fun join_commas :: "string list \<Rightarrow> string" where
  "join_commas [] = []"
| "join_commas [t] = t"
| "join_commas (t # ts) = t @ CHR '','' # join_commas ts"

definition bracket_pair :: "char \<Rightarrow> char \<Rightarrow> bool" where
  "bracket_pair opn cl =
     ((opn = CHR ''['' \<and> cl = CHR '']'') \<or> (opn = CHR ''('' \<and> cl = CHR '')'') \<or>
      (opn = CHR ''<'' \<and> cl = CHR ''>''))"

inductive type_expression :: "string \<Rightarrow> bool" where
  pointer: "is_Identifier A \<Longrightarrow> type_expression (A @ replicate n CHR ''*'')"
| bracketed:
    "is_Identifier A \<Longrightarrow> bracket_pair opn cl \<Longrightarrow> (\<forall>t \<in> set ts. type_expression t) \<Longrightarrow>
     type_expression (A @ opn # join_commas ts @ cl # replicate n CHR ''*'')"

text \<open>
  For the proofs: the texts that \<^verbatim>\<open>ValidType\<close> consumes in full (they are the type expressions,
  see \<open>type_expression_iff_consumed\<close>), and the part of a text between two offsets.
\<close>

definition consumed_in_full :: "string \<Rightarrow> bool" where
  "consumed_in_full s = (ValidType s 0 = Inr (length s))"

definition slice :: "string \<Rightarrow> nat \<Rightarrow> nat \<Rightarrow> string" where
  "slice t a b = take (b - a) (drop a t)"

text \<open>
  A character after which a type expression cannot go on: not part of an identifier, not
  a star and not an opening bracket. The comma and the three closers are such.
\<close>

definition stops :: "char \<Rightarrow> bool" where
  "stops c = (\<not> AlNum c \<and> \<not> is_star c \<and> closer c = None)"

definition is_closer :: "char \<Rightarrow> bool" where
  "is_closer c = (c = CHR '']'' \<or> c = CHR '')'' \<or> c = CHR ''>'')"

text \<open>The texts \<open>,t\<close> of a list of texts, one after the other.\<close>

definition comma_each :: "string list \<Rightarrow> string" where
  "comma_each ts = concat (map (\<lambda>t. CHR '','' # t) ts)"

section \<open>checking: \<^verbatim>\<open>Check\<close>, \<^verbatim>\<open>CheckAll\<close>, \<^verbatim>\<open>Unique\<close>\<close>

definition and_then :: "'a Result \<Rightarrow> ('a \<Rightarrow> 'b Result) \<Rightarrow> 'b Result" where
  "and_then r f = (case r of Inl e \<Rightarrow> Inl e | Inr v \<Rightarrow> f v)"

definition transform :: "'a Result \<Rightarrow> ('a \<Rightarrow> 'b) \<Rightarrow> 'b Result" where
  "transform r f = (case r of Inl e \<Rightarrow> Inl e | Inr v \<Rightarrow> Inr (f v))"

definition has_value :: "'a Result \<Rightarrow> bool" where
  "has_value r = (case r of Inl e \<Rightarrow> False | Inr v \<Rightarrow> True)"

text \<open>
  \<^verbatim>\<open>Check<Fn>(entity, tag)\<close> invokes \<^verbatim>\<open>Fn(entity, 0)\<close> and erases the offset it returns: the
  check passes as soon as \<open>entity\<close> starts with what \<open>Fn\<close> recognises.
\<close>

definition Check :: "(string \<Rightarrow> nat \<Rightarrow> nat Result) \<Rightarrow> string \<Rightarrow> string \<Rightarrow> unit Result" where
  "Check Fn entity tag =
     (case Fn entity 0 of Inl msg \<Rightarrow> Inl (Invalid tag entity msg) | Inr end_offset \<Rightarrow> Inr ())"

fun CheckAll :: "(string \<Rightarrow> nat \<Rightarrow> nat Result) \<Rightarrow> string list \<Rightarrow> string \<Rightarrow> unit Result" where
  "CheckAll Fn [] tag = Inr ()"
| "CheckAll Fn (entity # rng) tag =
     (case Fn entity 0 of
        Inl msg \<Rightarrow> Inl (Invalid tag entity msg)
      | Inr end_offset \<Rightarrow> CheckAll Fn rng tag)"

text \<open>
  \<^verbatim>\<open>std::ranges::sort\<close> with the element type's \<^verbatim>\<open><\<close>. The standard leaves the order among
  equivalent elements open; the model sorts by insertion, and on a range of pairwise
  inequivalent elements every sorting algorithm returns the same sequence.
\<close>

fun insort_by :: "('a \<Rightarrow> 'a \<Rightarrow> bool) \<Rightarrow> 'a \<Rightarrow> 'a list \<Rightarrow> 'a list" where
  "insort_by lt x [] = [x]"
| "insort_by lt x (y # ys) = (if lt x y then x # y # ys else y # insort_by lt x ys)"

definition ranges_sort :: "('a \<Rightarrow> 'a \<Rightarrow> bool) \<Rightarrow> 'a list \<Rightarrow> 'a list" where
  "ranges_sort lt xs = foldr (insort_by lt) xs []"

text \<open>
  \<^verbatim>\<open>std::ranges::unique\<close> keeps the first element of every run of equal neighbours and
  returns the range of what is left over; \<open>ranges_unique\<close> is the kept part.
\<close>

fun ranges_unique :: "('a \<Rightarrow> 'a \<Rightarrow> bool) \<Rightarrow> 'a list \<Rightarrow> 'a list" where
  "ranges_unique eq [] = []"
| "ranges_unique eq [x] = [x]"
| "ranges_unique eq (x # y # ys) =
     (if eq x y then ranges_unique eq (x # ys) else x # ranges_unique eq (y # ys))"

definition Unique :: "('a \<Rightarrow> 'a \<Rightarrow> bool) \<Rightarrow> ('a \<Rightarrow> 'a \<Rightarrow> bool) \<Rightarrow> 'a list \<Rightarrow> string \<Rightarrow> unit Result" where
  "Unique lt eq c tag =
     (let copy = ranges_sort lt c
      in if length (ranges_unique eq copy) \<noteq> length copy then Inl (Duplicate tag) else Inr ())"

text \<open>\<^verbatim>\<open>std::ranges::find_if\<close>, with the iterator it returns as an index.\<close>

fun ranges_find_if :: "('a \<Rightarrow> bool) \<Rightarrow> 'a list \<Rightarrow> nat option" where
  "ranges_find_if P [] = None"
| "ranges_find_if P (x # xs) =
     (if P x then Some 0 else map_option Suc (ranges_find_if P xs))"

text \<open>\<^verbatim>\<open>vector::erase(iterator)\<close>.\<close>

definition erase :: "nat \<Rightarrow> 'a list \<Rightarrow> 'a list" where
  "erase i xs = take i xs @ drop (i + 1) xs"

text \<open>\<^verbatim>\<open>std::ranges::includes\<close> on two ranges, with \<^verbatim>\<open><\<close> as the comparison.\<close>

fun ranges_includes :: "('a::linorder) list \<Rightarrow> 'a list \<Rightarrow> bool" where
  "ranges_includes xs [] = True"
| "ranges_includes [] (y # ys) = False"
| "ranges_includes (x # xs) (y # ys) =
     (if y < x then False
      else if x < y then ranges_includes xs (y # ys)
      else ranges_includes xs ys)"

text \<open>\<^verbatim>\<open>std::strong_ordering\<close>, and \<^verbatim>\<open><=>\<close> on strings and sizes.\<close>

datatype strong_ordering = Less | Equal | Greater

definition compare3 :: "('a::linorder) \<Rightarrow> 'a \<Rightarrow> strong_ordering" where
  "compare3 a b = (if a < b then Less else if b < a then Greater else Equal)"

section \<open>model: Field, Parameter, MethodSignature, Method\<close>

record Field =
  Field_Name :: string
  Field_Type :: string

definition Field_From :: "string \<Rightarrow> string \<Rightarrow> Field Result" where
  "Field_From name type =
     and_then (Check ValidIdentifier name ''field name'') (\<lambda>_.
       transform (Check ValidType type ''field type'') (\<lambda>_.
         \<lparr>Field_Name = name, Field_Type = type\<rparr>))"

definition Field_Rename :: "Field \<Rightarrow> string \<Rightarrow> unit Result \<times> Field" where
  "Field_Rename f name =
     (case Check ValidType name ''field type'' of
        Inl e \<Rightarrow> (Inl e, f)
      | Inr _ \<Rightarrow> (Inr (), f\<lparr>Field_Name := name\<rparr>))"

definition Field_ChangeType :: "Field \<Rightarrow> string \<Rightarrow> unit Result \<times> Field" where
  "Field_ChangeType f new_type =
     (case Check ValidType new_type ''field type'' of
        Inl e \<Rightarrow> (Inl e, f)
      | Inr _ \<Rightarrow> (Inr (), f\<lparr>Field_Type := new_type\<rparr>))"

definition Field_less :: "Field \<Rightarrow> Field \<Rightarrow> bool" where
  "Field_less f other = (compare3 (Field_Name f) (Field_Name other) = Less)"

record Parameter =
  Parameter_Name :: string
  Parameter_Type :: string

definition Parameter_From :: "string \<Rightarrow> string \<Rightarrow> Parameter Result" where
  "Parameter_From name type =
     and_then (Check ValidIdentifier name ''parameter name'') (\<lambda>_.
       transform (Check ValidType type ''parameter type'') (\<lambda>_.
         \<lparr>Parameter_Name = name, Parameter_Type = type\<rparr>))"

definition Parameter_ChangeType :: "Parameter \<Rightarrow> string \<Rightarrow> unit Result \<times> Parameter" where
  "Parameter_ChangeType p new_type =
     (case Check ValidType new_type ''parameter type'' of
        Inl e \<Rightarrow> (Inl e, p)
      | Inr _ \<Rightarrow> (Inr (), p\<lparr>Parameter_Type := new_type\<rparr>))"

record MethodSignature =
  MethodSignature_Name :: string
  MethodSignature_ParameterTypes :: "string list"

text \<open>The loop over \<^verbatim>\<open>std::views::zip\<close> of two type sequences, up to the first difference.\<close>

fun zip_compare :: "string list \<Rightarrow> string list \<Rightarrow> strong_ordering" where
  "zip_compare (p1 # ps1) (p2 # ps2) =
     (let res = compare3 p1 p2 in if res \<noteq> Equal then res else zip_compare ps1 ps2)"
| "zip_compare ps1 ps2 = Equal"

definition MethodSignature_compare :: "MethodSignature \<Rightarrow> MethodSignature \<Rightarrow> strong_ordering" where
  "MethodSignature_compare s other =
     (let res = compare3 (MethodSignature_Name s) (MethodSignature_Name other) in
      if res \<noteq> Equal then res
      else let res = zip_compare (MethodSignature_ParameterTypes s) (MethodSignature_ParameterTypes other) in
      if res \<noteq> Equal then res
      else compare3 (length (MethodSignature_ParameterTypes s)) (length (MethodSignature_ParameterTypes other)))"

text \<open>
  The copies of a signature with one part changed. \<^verbatim>\<open>WithParameters\<close> has two overloads, on a
  sequence of types (empty by default) and on a sequence of parameters. \<^verbatim>\<open>WithoutParameter\<close>
  and \<^verbatim>\<open>WithParameterType\<close> index the sequence of types unchecked; \<open>Class\<close> calls them with
  the index of a parameter of a method that equals the signature, which is in range.
\<close>

definition MethodSignature_WithName :: "MethodSignature \<Rightarrow> string \<Rightarrow> MethodSignature" where
  "MethodSignature_WithName s name = s\<lparr>MethodSignature_Name := name\<rparr>"

definition MethodSignature_WithParameters :: "MethodSignature \<Rightarrow> string list \<Rightarrow> MethodSignature" where
  "MethodSignature_WithParameters s parameters = s\<lparr>MethodSignature_ParameterTypes := parameters\<rparr>"

definition MethodSignature_WithParameters_of :: "MethodSignature \<Rightarrow> Parameter list \<Rightarrow> MethodSignature" where
  "MethodSignature_WithParameters_of s parameters =
     s\<lparr>MethodSignature_ParameterTypes := map Parameter_Type parameters\<rparr>"

definition MethodSignature_WithAddedParameter :: "MethodSignature \<Rightarrow> string \<Rightarrow> MethodSignature" where
  "MethodSignature_WithAddedParameter s type =
     s\<lparr>MethodSignature_ParameterTypes := MethodSignature_ParameterTypes s @ [type]\<rparr>"

definition MethodSignature_WithoutParameter :: "MethodSignature \<Rightarrow> nat \<Rightarrow> MethodSignature" where
  "MethodSignature_WithoutParameter s i =
     s\<lparr>MethodSignature_ParameterTypes := erase i (MethodSignature_ParameterTypes s)\<rparr>"

definition MethodSignature_WithParameterType :: "MethodSignature \<Rightarrow> nat \<Rightarrow> string \<Rightarrow> MethodSignature" where
  "MethodSignature_WithParameterType s i type =
     s\<lparr>MethodSignature_ParameterTypes := (MethodSignature_ParameterTypes s)[i := type]\<rparr>"

record Method =
  Method_Name :: string
  Method_ReturnType :: string
  Method_Parameters :: "Parameter list"

text \<open>The file-local \<^verbatim>\<open>Check(parameters)\<close> of method.cpp.\<close>

definition Method_Check_Parameters :: "Parameter list \<Rightarrow> unit Result" where
  "Method_Check_Parameters parameters =
     (let param_names = map Parameter_Name parameters in
      and_then (Unique (<) (=) param_names ''parameter names'') (\<lambda>_.
      and_then (CheckAll ValidIdentifier param_names ''parameter name'') (\<lambda>_.
        CheckAll ValidType (map Parameter_Type parameters) ''parameter type'')))"

definition Method_From :: "string \<Rightarrow> string \<Rightarrow> Parameter list \<Rightarrow> Method Result" where
  "Method_From name return_type parameters =
     and_then (Check ValidIdentifier name ''method name'') (\<lambda>_.
     and_then (Check ValidType return_type ''method return type'') (\<lambda>_.
     transform (Method_Check_Parameters parameters) (\<lambda>_.
       \<lparr>Method_Name = name, Method_ReturnType = return_type, Method_Parameters = parameters\<rparr>)))"

text \<open>
  \<^verbatim>\<open>Method::operator<=>\<close>: the name, then the number of parameters, then the parameter types
  pairwise, then the return type.
\<close>

definition Method_compare :: "Method \<Rightarrow> Method \<Rightarrow> strong_ordering" where
  "Method_compare m other =
     (let res = compare3 (Method_Name m) (Method_Name other) in
      if res \<noteq> Equal then res
      else let res = compare3 (length (Method_Parameters m)) (length (Method_Parameters other)) in
      if res \<noteq> Equal then res
      else let res = zip_compare (map Parameter_Type (Method_Parameters m))
                                 (map Parameter_Type (Method_Parameters other)) in
      if res \<noteq> Equal then res
      else compare3 (Method_ReturnType m) (Method_ReturnType other))"

definition Method_less :: "Method \<Rightarrow> Method \<Rightarrow> bool" where
  "Method_less m other = (Method_compare m other = Less)"

text \<open>\<^verbatim>\<open>Method::operator==(Method const&)\<close>: \<^verbatim>\<open>std::ranges::equal\<close> on the parameter types.\<close>

definition Method_eq :: "Method \<Rightarrow> Method \<Rightarrow> bool" where
  "Method_eq m other =
     (Method_Name m = Method_Name other \<and>
      map Parameter_Type (Method_Parameters m) = map Parameter_Type (Method_Parameters other))"

text \<open>\<^verbatim>\<open>Method::operator==(MethodSignature const&)\<close>.\<close>

definition Method_eq_signature :: "Method \<Rightarrow> MethodSignature \<Rightarrow> bool" where
  "Method_eq_signature m sig =
     (Method_Name m = MethodSignature_Name sig \<and>
      map Parameter_Type (Method_Parameters m) = MethodSignature_ParameterTypes sig)"

text \<open>
  The mutators of a method. A parameter is found by its name (\<^verbatim>\<open>Parameter::operator==\<close>
  compares names), and an iterator into \<^verbatim>\<open>parameters_\<close> is its index.
\<close>

definition Method_Rename :: "Method \<Rightarrow> string \<Rightarrow> unit Result \<times> Method" where
  "Method_Rename m name =
     (case Check ValidIdentifier name ''method name'' of
        Inl e \<Rightarrow> (Inl e, m)
      | Inr _ \<Rightarrow> (Inr (), m\<lparr>Method_Name := name\<rparr>))"

definition Method_ChangeParameters :: "Method \<Rightarrow> Parameter list \<Rightarrow> unit Result \<times> Method" where
  "Method_ChangeParameters m parameters =
     (case Method_Check_Parameters parameters of
        Inl e \<Rightarrow> (Inl e, m)
      | Inr _ \<Rightarrow> (Inr (), m\<lparr>Method_Parameters := parameters\<rparr>))"

definition Method_AddParameter :: "Method \<Rightarrow> string \<Rightarrow> string \<Rightarrow> unit Result \<times> Method" where
  "Method_AddParameter m parameter_name parameter_type =
     (case Parameter_From parameter_name parameter_type of
        Inl e \<Rightarrow> (Inl e, m)
      | Inr p \<Rightarrow>
          if ranges_find_if (\<lambda>q. Parameter_Name q = Parameter_Name p) (Method_Parameters m) \<noteq> None
          then (Inl AddingDuplicateParameter, m)
          else (Inr (), m\<lparr>Method_Parameters := Method_Parameters m @ [p]\<rparr>))"

definition Method_ClearParameters :: "Method \<Rightarrow> unit Result \<times> Method" where
  "Method_ClearParameters m = (Inr (), m\<lparr>Method_Parameters := []\<rparr>)"

definition Method_RemoveParameter :: "Method \<Rightarrow> nat \<Rightarrow> unit Result \<times> Method" where
  "Method_RemoveParameter m iter = (Inr (), m\<lparr>Method_Parameters := erase iter (Method_Parameters m)\<rparr>)"

definition Method_GetParameter :: "Method \<Rightarrow> string \<Rightarrow> nat Result" where
  "Method_GetParameter m parameter_name =
     (case ranges_find_if (\<lambda>p. Parameter_Name p = parameter_name) (Method_Parameters m) of
        Some i \<Rightarrow> Inr i
      | None \<Rightarrow> Inl (MethodParameterDoesNotExist parameter_name))"

section \<open>model: Class\<close>

record Point =
  Point_x :: int
  Point_y :: int

record Class =
  Class_Name :: string
  Class_Fields :: "Field list"
  Class_Methods :: "Method list"
  Class_Position :: Point

definition Class_default :: Class where
  "Class_default = \<lparr>Class_Name = [], Class_Fields = [], Class_Methods = [], Class_Position = \<lparr>Point_x = 0, Point_y = 0\<rparr>\<rparr>"

definition Class_From :: "string \<Rightarrow> Class Result" where
  "Class_From name =
     transform (Check ValidType name ''class name'') (\<lambda>_. Class_default\<lparr>Class_Name := name\<rparr>)"

definition Class_Rename :: "Class \<Rightarrow> string \<Rightarrow> unit Result \<times> Class" where
  "Class_Rename c name =
     (case Check ValidType name ''class name'' of
        Inl e \<Rightarrow> (Inl e, c)
      | Inr _ \<Rightarrow> (Inr (), c\<lparr>Class_Name := name\<rparr>))"

definition Class_less :: "Class \<Rightarrow> Class \<Rightarrow> bool" where
  "Class_less c other = (compare3 (Class_Name c) (Class_Name other) = Less)"

definition Class_eq :: "Class \<Rightarrow> Class \<Rightarrow> bool" where
  "Class_eq c other = (Class_Name c = Class_Name other)"

definition Class_GetField :: "Class \<Rightarrow> string \<Rightarrow> nat Result" where
  "Class_GetField c field_name =
     and_then (Check ValidIdentifier field_name ''field name'') (\<lambda>_.
       case ranges_find_if (\<lambda>f. Field_Name f = field_name) (Class_Fields c) of
         Some i \<Rightarrow> Inr i
       | None \<Rightarrow> Inl (FieldDoesNotExist field_name))"

definition Class_AddField :: "Class \<Rightarrow> string \<Rightarrow> string \<Rightarrow> unit Result \<times> Class" where
  "Class_AddField c field_name field_type =
     (if \<not> has_value (Class_GetField c field_name) then
        (case Field_From field_name field_type of
           Inl e \<Rightarrow> (Inl e, c)
         | Inr f \<Rightarrow> (Inr (), c\<lparr>Class_Fields := ranges_sort Field_less (Class_Fields c @ [f])\<rparr>))
      else (Inl NewFieldAlreadyExists, c))"

definition Class_RenameField :: "Class \<Rightarrow> string \<Rightarrow> string \<Rightarrow> unit Result \<times> Class" where
  "Class_RenameField c field_name new_name =
     (case Class_GetField c field_name of
        Inl e \<Rightarrow> (Inl e, c)
      | Inr f \<Rightarrow>
          if \<not> has_value (Class_GetField c new_name) then
            (case Field_Rename (Class_Fields c ! f) new_name of
               (Inl e, fld) \<Rightarrow> (Inl e, c\<lparr>Class_Fields := (Class_Fields c)[f := fld]\<rparr>)
             | (Inr _, fld) \<Rightarrow>
                 (Inr (), c\<lparr>Class_Fields := ranges_sort Field_less ((Class_Fields c)[f := fld])\<rparr>))
          else (Inl NewFieldNameInUse, c))"

text \<open>The file-local \<^verbatim>\<open>Check(parameters)\<close> and \<^verbatim>\<open>Check(method)\<close> of class.cpp.\<close>

definition Class_Check_Parameters :: "Parameter list \<Rightarrow> unit Result" where
  "Class_Check_Parameters parameters =
     and_then (CheckAll ValidIdentifier (map Parameter_Name parameters) ''parameter name'') (\<lambda>_.
     and_then (CheckAll ValidType (map Parameter_Type parameters) ''parameter type'') (\<lambda>_.
       Unique (<) (=) (map Parameter_Name parameters) ''parameter names''))"

definition Class_Check_Method :: "Method \<Rightarrow> unit Result" where
  "Class_Check_Method method =
     and_then (Check ValidIdentifier (Method_Name method) ''method name'') (\<lambda>_.
     and_then (Class_Check_Parameters (Method_Parameters method)) (\<lambda>_.
     and_then (Check ValidType (Method_ReturnType method) ''return type'') (\<lambda>_.
       Unique (<) (=) (map Parameter_Name (Method_Parameters method)) ''parameter names'')))"

definition Class_GetMethod :: "Class \<Rightarrow> Method \<Rightarrow> nat Result" where
  "Class_GetMethod c method =
     and_then (Class_Check_Method method) (\<lambda>_.
       case ranges_find_if (\<lambda>m. Method_eq m method) (Class_Methods c) of
         Some i \<Rightarrow> Inr i
       | None \<Rightarrow> Inl MethodDoesNotExist)"

definition Class_AddMethod :: "Class \<Rightarrow> string \<Rightarrow> string \<Rightarrow> Parameter list \<Rightarrow> unit Result \<times> Class" where
  "Class_AddMethod c name return_type parameters =
     (case Method_From name return_type parameters of
        Inl e \<Rightarrow> (Inl e, c)
      | Inr method \<Rightarrow>
          if \<not> has_value (Class_GetMethod c method) then
            (Inr (), c\<lparr>Class_Methods := ranges_sort Method_less (Class_Methods c @ [method])\<rparr>)
          else (Inl MethodSignatureAlreadyExists, c))"

text \<open>The file-local \<^verbatim>\<open>Check(sig)\<close> of class.cpp, and the lookup by signature.\<close>

definition Class_Check_Signature :: "MethodSignature \<Rightarrow> unit Result" where
  "Class_Check_Signature sig =
     and_then (Check ValidIdentifier (MethodSignature_Name sig) ''method name'') (\<lambda>_.
       CheckAll ValidType (MethodSignature_ParameterTypes sig) ''parameter type'')"

definition Class_GetMethodFromSignature :: "Class \<Rightarrow> MethodSignature \<Rightarrow> nat Result" where
  "Class_GetMethodFromSignature c method_signature =
     and_then (Class_Check_Signature method_signature) (\<lambda>_.
       case ranges_find_if (\<lambda>m. Method_eq_signature m method_signature) (Class_Methods c) of
         Some i \<Rightarrow> Inr i
       | None \<Rightarrow> Inl MethodDoesNotExist)"

definition Class_DeleteMethod :: "Class \<Rightarrow> MethodSignature \<Rightarrow> unit Result \<times> Class" where
  "Class_DeleteMethod c method_signature =
     (case Class_GetMethodFromSignature c method_signature of
        Inl e \<Rightarrow> (Inl e, c)
      | Inr m \<Rightarrow> (Inr (), c\<lparr>Class_Methods := erase m (Class_Methods c)\<rparr>))"

text \<open>
  The tail \<^verbatim>\<open>m->F(...).transform([&] { std::ranges::sort(methods_); })\<close> of the mutators below,
  where \<^verbatim>\<open>m\<close> is an iterator into \<^verbatim>\<open>methods_\<close>: \<^verbatim>\<open>F\<close> works on the method in place, and the
  methods are sorted when \<^verbatim>\<open>F\<close> succeeds. The second argument is the index of the method, the
  third the result of \<^verbatim>\<open>F\<close> and the method as \<^verbatim>\<open>F\<close> leaves it.
\<close>

definition sort_after :: "Class \<Rightarrow> nat \<Rightarrow> unit Result \<times> Method \<Rightarrow> unit Result \<times> Class" where
  "sort_after c m r =
     (case r of
        (Inl e, method) \<Rightarrow> (Inl e, c\<lparr>Class_Methods := (Class_Methods c)[m := method]\<rparr>)
      | (Inr _, method) \<Rightarrow>
          (Inr (), c\<lparr>Class_Methods := ranges_sort Method_less ((Class_Methods c)[m := method])\<rparr>))"

definition Class_RenameMethod :: "Class \<Rightarrow> MethodSignature \<Rightarrow> string \<Rightarrow> unit Result \<times> Class" where
  "Class_RenameMethod c method_signature new_name =
     (case Class_GetMethodFromSignature c method_signature of
        Inl e \<Rightarrow> (Inl e, c)
      | Inr m \<Rightarrow>
          if \<not> has_value (Class_GetMethodFromSignature c (MethodSignature_WithName method_signature new_name))
          then sort_after c m (Method_Rename (Class_Methods c ! m) new_name)
          else (Inl NewMethodSignatureAlreadyExists, c))"

definition Class_ChangeParameters :: "Class \<Rightarrow> MethodSignature \<Rightarrow> Parameter list \<Rightarrow> unit Result \<times> Class" where
  "Class_ChangeParameters c method_signature parameters =
     (case Class_Check_Parameters parameters of
        Inl e \<Rightarrow> (Inl e, c)
      | Inr _ \<Rightarrow>
          (case Class_GetMethodFromSignature c method_signature of
             Inl e \<Rightarrow> (Inl e, c)
           | Inr m \<Rightarrow>
               if \<not> has_value (Class_GetMethodFromSignature c
                                  (MethodSignature_WithParameters_of method_signature parameters))
               then sort_after c m (Method_ChangeParameters (Class_Methods c ! m) parameters)
               else (Inl NewMethodSignatureAlreadyExists, c)))"

definition Class_AddParameter :: "Class \<Rightarrow> MethodSignature \<Rightarrow> string \<Rightarrow> string \<Rightarrow> unit Result \<times> Class" where
  "Class_AddParameter c method_signature parameter_name parameter_type =
     (case Class_GetMethodFromSignature c method_signature of
        Inl e \<Rightarrow> (Inl e, c)
      | Inr m \<Rightarrow>
          if \<not> has_value (Class_GetMethodFromSignature c
                             (MethodSignature_WithAddedParameter method_signature parameter_type))
          then sort_after c m (Method_AddParameter (Class_Methods c ! m) parameter_name parameter_type)
          else (Inl NewMethodSignatureAlreadyExists, c))"

definition Class_DeleteParameter :: "Class \<Rightarrow> MethodSignature \<Rightarrow> string \<Rightarrow> unit Result \<times> Class" where
  "Class_DeleteParameter c method_signature parameter_name =
     (case Class_GetMethodFromSignature c method_signature of
        Inl e \<Rightarrow> (Inl e, c)
      | Inr m \<Rightarrow>
          (case Method_GetParameter (Class_Methods c ! m) parameter_name of
             Inl e \<Rightarrow> (Inl e, c)
           | Inr p \<Rightarrow>
               if \<not> has_value (Class_GetMethodFromSignature c
                                  (MethodSignature_WithoutParameter method_signature p))
               then sort_after c m (Method_RemoveParameter (Class_Methods c ! m) p)
               else (Inl NewMethodSignatureAlreadyExists, c)))"

definition Class_DeleteParameters :: "Class \<Rightarrow> MethodSignature \<Rightarrow> unit Result \<times> Class" where
  "Class_DeleteParameters c method_signature =
     (case Class_GetMethodFromSignature c method_signature of
        Inl e \<Rightarrow> (Inl e, c)
      | Inr m \<Rightarrow>
          if \<not> has_value (Class_GetMethodFromSignature c
                             (MethodSignature_WithParameters method_signature []))
          then sort_after c m (Method_ClearParameters (Class_Methods c ! m))
          else (Inl NewMethodSignatureAlreadyExists, c))"

text \<open>
  \<^verbatim>\<open>ChangeParameterType\<close> changes the type of the parameter in place, through the iterator
  \<^verbatim>\<open>p\<close> into the parameters of the method at \<^verbatim>\<open>m\<close>.
\<close>

definition Class_ChangeParameterType ::
  "Class \<Rightarrow> MethodSignature \<Rightarrow> string \<Rightarrow> string \<Rightarrow> unit Result \<times> Class" where
  "Class_ChangeParameterType c method_signature parameter_name new_type =
     (case Class_GetMethodFromSignature c method_signature of
        Inl e \<Rightarrow> (Inl e, c)
      | Inr m \<Rightarrow>
          (case Method_GetParameter (Class_Methods c ! m) parameter_name of
             Inl e \<Rightarrow> (Inl e, c)
           | Inr p \<Rightarrow>
               if \<not> has_value (Class_GetMethodFromSignature c
                                  (MethodSignature_WithParameterType method_signature p new_type))
               then sort_after c m
                      (let method = Class_Methods c ! m in
                       case Parameter_ChangeType (Method_Parameters method ! p) new_type of
                         (r, parameter) \<Rightarrow>
                           (r, method\<lparr>Method_Parameters := (Method_Parameters method)[p := parameter]\<rparr>))
               else (Inl NewMethodSignatureAlreadyExists, c)))"

text \<open>The methods of a class are in the order of \<^verbatim>\<open>Method::operator<=>\<close>.\<close>

definition methods_sorted :: "Class \<Rightarrow> bool" where
  "methods_sorted c = sorted_wrt (\<lambda>a b. \<not> Method_less b a) (Class_Methods c)"

section \<open>model: Relationship\<close>

datatype RelationshipType = Aggregation | Composition | Inheritance | Realization

definition RelationshipTypeFromString :: "string \<Rightarrow> RelationshipType Result" where
  "RelationshipTypeFromString s =
     (if s = ''Aggregation'' then Inr Aggregation
      else if s = ''Composition'' then Inr Composition
      else if s = ''Inheritance'' then Inr Inheritance
      else if s = ''Realization'' then Inr Realization
      else Inl (InvalidRelationshipType s))"

record Relationship =
  Relationship_Source :: string
  Relationship_Destination :: string
  Relationship_Type :: RelationshipType

definition Relationship_From :: "string \<Rightarrow> string \<Rightarrow> RelationshipType \<Rightarrow> Relationship Result" where
  "Relationship_From source destination type =
     transform
       (and_then (Check ValidType source ''class name'') (\<lambda>_.
          Check ValidType destination ''class name''))
       (\<lambda>_. \<lparr>Relationship_Source = source, Relationship_Destination = destination,
              Relationship_Type = type\<rparr>)"

definition Relationship_ChangeSource :: "Relationship \<Rightarrow> string \<Rightarrow> unit Result \<times> Relationship" where
  "Relationship_ChangeSource r new_source =
     (case Check ValidType new_source ''class name'' of
        Inl e \<Rightarrow> (Inl e, r)
      | Inr _ \<Rightarrow> (Inr (), r\<lparr>Relationship_Source := new_source\<rparr>))"

definition Relationship_ChangeDestination :: "Relationship \<Rightarrow> string \<Rightarrow> unit Result \<times> Relationship" where
  "Relationship_ChangeDestination r new_destination =
     (case Check ValidType new_destination ''class name'' of
        Inl e \<Rightarrow> (Inl e, r)
      | Inr _ \<Rightarrow> (Inr (), r\<lparr>Relationship_Destination := new_destination\<rparr>))"

definition Relationship_eq :: "Relationship \<Rightarrow> Relationship \<Rightarrow> bool" where
  "Relationship_eq r other =
     (Relationship_Source r = Relationship_Source other \<and>
      Relationship_Destination r = Relationship_Destination other)"

definition Relationship_compare :: "Relationship \<Rightarrow> Relationship \<Rightarrow> strong_ordering" where
  "Relationship_compare r other =
     (let res = compare3 (Relationship_Source r) (Relationship_Source other) in
      if res = Equal then compare3 (Relationship_Destination r) (Relationship_Destination other)
      else res)"

definition Relationship_less :: "Relationship \<Rightarrow> Relationship \<Rightarrow> bool" where
  "Relationship_less r other = (Relationship_compare r other = Less)"

section \<open>model: Diagram\<close>

record Diagram =
  classes :: "Class list"
  relationships :: "Relationship list"

definition Diagram_default :: Diagram where
  "Diagram_default = \<lparr>classes = [], relationships = []\<rparr>"

text \<open>The lookups return an iterator in the source and its index here.\<close>

definition GetClass :: "Diagram \<Rightarrow> string \<Rightarrow> nat Result" where
  "GetClass d name =
     and_then (Check ValidType name ''class name'') (\<lambda>_.
       case ranges_find_if (\<lambda>c. Class_Name c = name) (classes d) of
         Some i \<Rightarrow> Inr i
       | None \<Rightarrow> Inl (ClassDoesNotExist name))"

definition GetRelationship :: "Diagram \<Rightarrow> string \<Rightarrow> string \<Rightarrow> nat Result" where
  "GetRelationship d src dst =
     and_then (Check ValidType src ''class name'') (\<lambda>_.
     and_then (Check ValidType dst ''class name'') (\<lambda>_.
       case ranges_find_if
              (\<lambda>r. Relationship_Source r = src \<and> Relationship_Destination r = dst)
              (relationships d) of
         Some i \<Rightarrow> Inr i
       | None \<Rightarrow> Inl (RelationshipDoesNotExist src dst)))"

definition GetClassNames :: "Diagram \<Rightarrow> string list" where
  "GetClassNames d = map Class_Name (classes d)"

definition AddClass :: "Diagram \<Rightarrow> string \<Rightarrow> unit Result \<times> Diagram" where
  "AddClass d name =
     (if \<not> has_value (GetClass d name) then
        (case Class_From name of
           Inl e \<Rightarrow> (Inl e, d)
         | Inr c \<Rightarrow> (Inr (), d\<lparr>classes := classes d @ [c]\<rparr>))
      else (Inl (ClassAlreadyExists name), d))"

definition DeleteClass :: "Diagram \<Rightarrow> string \<Rightarrow> unit Result \<times> Diagram" where
  "DeleteClass d name =
     (case GetClass d name of
        Inl e \<Rightarrow> (Inl e, d)
      | Inr c \<Rightarrow>
          (Inr (),
           d\<lparr>relationships :=
                filter (\<lambda>r. \<not> (Relationship_Source r = name \<or> Relationship_Destination r = name))
                  (relationships d),
              classes := erase c (classes d)\<rparr>))"

text \<open>
  The loop of \<^verbatim>\<open>RenameClass\<close> over the relationships; the results of \<^verbatim>\<open>ChangeSource\<close> and
  \<^verbatim>\<open>ChangeDestination\<close> are ignored, as in the source.
\<close>

definition rename_endpoints :: "string \<Rightarrow> string \<Rightarrow> Relationship \<Rightarrow> Relationship" where
  "rename_endpoints old_name new_name r =
     (let r1 = (if Relationship_Source r = old_name
                then snd (Relationship_ChangeSource r new_name) else r)
      in if Relationship_Destination r1 = old_name
         then snd (Relationship_ChangeDestination r1 new_name) else r1)"

definition RenameClass :: "Diagram \<Rightarrow> string \<Rightarrow> string \<Rightarrow> unit Result \<times> Diagram" where
  "RenameClass d old_name new_name =
     (case GetClass d old_name of
        Inl e \<Rightarrow> (Inl e, d)
      | Inr c \<Rightarrow>
          if \<not> has_value (GetClass d new_name) then
            (case Class_Rename (classes d ! c) new_name of
               (Inl e, cls) \<Rightarrow> (Inl e, d\<lparr>classes := (classes d)[c := cls]\<rparr>)
             | (Inr _, cls) \<Rightarrow>
                 (Inr (),
                  d\<lparr>classes := ranges_sort Class_less ((classes d)[c := cls]),
                     relationships := map (rename_endpoints old_name new_name) (relationships d)\<rparr>))
          else (Inl NewClassAlreadyExists, d))"

definition AddRelationship :: "Diagram \<Rightarrow> string \<Rightarrow> string \<Rightarrow> RelationshipType \<Rightarrow> unit Result \<times> Diagram" where
  "AddRelationship d source destination type =
     (case and_then (GetClass d source) (\<lambda>_. GetClass d destination) of
        Inl e \<Rightarrow> (Inl e, d)
      | Inr _ \<Rightarrow>
          if \<not> has_value (GetRelationship d source destination) then
            (case Relationship_From source destination type of
               Inl e \<Rightarrow> (Inl e, d)
             | Inr r \<Rightarrow>
                 (Inr (),
                  d\<lparr>relationships := ranges_sort Relationship_less (relationships d @ [r])\<rparr>))
          else (Inl RelationshipAlreadyExists, d))"

definition DeleteRelationship :: "Diagram \<Rightarrow> string \<Rightarrow> string \<Rightarrow> unit Result \<times> Diagram" where
  "DeleteRelationship d source destination =
     (case GetRelationship d source destination of
        Inl e \<Rightarrow> (Inl e, d)
      | Inr r \<Rightarrow> (Inr (), d\<lparr>relationships := erase r (relationships d)\<rparr>))"

definition ChangeRelationshipSource :: "Diagram \<Rightarrow> string \<Rightarrow> string \<Rightarrow> string \<Rightarrow> unit Result \<times> Diagram" where
  "ChangeRelationshipSource d source destination new_source =
     (case GetRelationship d source destination of
        Inl e \<Rightarrow> (Inl e, d)
      | Inr r \<Rightarrow>
          if \<not> has_value (GetRelationship d new_source destination) then
            (case GetClass d new_source of
               Inl e \<Rightarrow> (Inl e, d)
             | Inr _ \<Rightarrow>
                 (case Relationship_ChangeSource (relationships d ! r) new_source of
                    (Inl e, rel) \<Rightarrow> (Inl e, d\<lparr>relationships := (relationships d)[r := rel]\<rparr>)
                  | (Inr _, rel) \<Rightarrow>
                      (Inr (),
                       d\<lparr>relationships :=
                            ranges_sort Relationship_less ((relationships d)[r := rel])\<rparr>)))
          else (Inl (RelationshipBetweenAlreadyExists new_source destination), d))"

definition ChangeRelationshipDestination :: "Diagram \<Rightarrow> string \<Rightarrow> string \<Rightarrow> string \<Rightarrow> unit Result \<times> Diagram" where
  "ChangeRelationshipDestination d source destination new_destination =
     (case GetRelationship d source destination of
        Inl e \<Rightarrow> (Inl e, d)
      | Inr r \<Rightarrow>
          if \<not> has_value (GetRelationship d source new_destination) then
            (case GetClass d new_destination of
               Inl e \<Rightarrow> (Inl e, d)
             | Inr _ \<Rightarrow>
                 (case Relationship_ChangeDestination (relationships d ! r) new_destination of
                    (Inl e, rel) \<Rightarrow> (Inl e, d\<lparr>relationships := (relationships d)[r := rel]\<rparr>)
                  | (Inr _, rel) \<Rightarrow>
                      (Inr (),
                       d\<lparr>relationships :=
                            ranges_sort Relationship_less ((relationships d)[r := rel])\<rparr>)))
          else (Inl (RelationshipBetweenAlreadyExists source new_destination), d))"

section \<open>model: loading a diagram\<close>

text \<open>
  The JSON codec is a library outside the repository. A value that has the persisted shape
  is modelled by the strings and numbers it holds; \<^verbatim>\<open>from_json\<close> of each entity validates
  them through the entity's factory and throws on failure, which is \<open>Inl\<close> here. The
  library decodes an array element by element into a temporary vector and assigns it only
  when every element was decoded; it throws, \<open>JsonException\<close> here, at a key that is
  absent and at a value that has not the shape asked for.
\<close>

record json_field =
  jf_name :: string
  jf_type :: string

record json_param =
  jp_name :: string
  jp_type :: string

record json_method =
  jm_name :: string
  jm_return_type :: string
  jm_params :: "json_param list"

record json_class =
  jc_name :: string
  jc_fields :: "json_field list"
  jc_methods :: "json_method list"
  jc_position :: Point

record json_relationship =
  jr_source :: string
  jr_destination :: string
  jr_type :: string

record json_diagram =
  j_classes :: "json_class list"
  j_relationships :: "json_relationship list"

text \<open>
  A parsed document, as \<^verbatim>\<open>from_json(json, Diagram&)\<close> reads it: \<^verbatim>\<open>"classes"\<close> first, then
  \<^verbatim>\<open>"relationships"\<close>.
  \<^item> \<open>Persisted\<close>: both keys hold arrays of the persisted shape.
  \<^item> \<open>Misshapen_classes js\<close>: the library throws at \<^verbatim>\<open>"classes"\<close>, after the classes \<open>js\<close> of
    the persisted shape (none when the document is no object, the key is absent or its
    value is no array).
  \<^item> \<open>Misshapen_relationships js rs\<close>: \<^verbatim>\<open>"classes"\<close> holds the classes \<open>js\<close>, and the library
    throws at \<^verbatim>\<open>"relationships"\<close>, after the relationships \<open>rs\<close> of the persisted shape.
\<close>

datatype json_document =
    Persisted json_diagram
  | Misshapen_classes "json_class list"
  | Misshapen_relationships "json_class list" "json_relationship list"

fun decode_all :: "('j \<Rightarrow> 'a Result) \<Rightarrow> 'j list \<Rightarrow> 'a list Result" where
  "decode_all dec [] = Inr []"
| "decode_all dec (j # js) =
     (case dec j of
        Inl e \<Rightarrow> Inl e
      | Inr v \<Rightarrow> (case decode_all dec js of Inl e \<Rightarrow> Inl e | Inr vs \<Rightarrow> Inr (v # vs)))"

definition from_json_Field :: "json_field \<Rightarrow> Field Result" where
  "from_json_Field json = Field_From (jf_name json) (jf_type json)"

definition from_json_Parameter :: "json_param \<Rightarrow> Parameter Result" where
  "from_json_Parameter json = Parameter_From (jp_name json) (jp_type json)"

definition from_json_Method :: "json_method \<Rightarrow> Method Result" where
  "from_json_Method json =
     and_then (decode_all from_json_Parameter (jm_params json)) (\<lambda>params.
       Method_From (jm_name json) (jm_return_type json) params)"

definition from_json_Class :: "json_class \<Rightarrow> Class Result" where
  "from_json_Class json =
     and_then (Check ValidType (jc_name json) ''class name'') (\<lambda>_.
     and_then (decode_all from_json_Field (jc_fields json)) (\<lambda>fields.
     transform (decode_all from_json_Method (jc_methods json)) (\<lambda>methods.
       \<lparr>Class_Name = jc_name json, Class_Fields = fields, Class_Methods = methods,
        Class_Position = jc_position json\<rparr>)))"

definition from_json_Relationship :: "json_relationship \<Rightarrow> Relationship Result" where
  "from_json_Relationship json =
     and_then (RelationshipTypeFromString (jr_type json)) (\<lambda>type.
       Relationship_From (jr_source json) (jr_destination json) type)"

text \<open>
  \<^verbatim>\<open>from_json(json, Diagram& d)\<close>: both vectors are decoded into \<open>d\<close> itself, the classes
  first, then the whole is checked; an exception leaves \<open>d\<close> as it stands when it is thrown.
\<close>

fun from_json_Diagram :: "json_document \<Rightarrow> Diagram \<Rightarrow> unit Result \<times> Diagram" where
  "from_json_Diagram (Misshapen_classes js) d =
     (case decode_all from_json_Class js of
        Inl e \<Rightarrow> (Inl e, d)
      | Inr cs \<Rightarrow> (Inl JsonException, d))"
| "from_json_Diagram (Misshapen_relationships js rs) d =
     (case decode_all from_json_Class js of
        Inl e \<Rightarrow> (Inl e, d)
      | Inr cs \<Rightarrow>
          let d1 = d\<lparr>classes := cs\<rparr> in
          (case decode_all from_json_Relationship rs of
             Inl e \<Rightarrow> (Inl e, d1)
           | Inr _ \<Rightarrow> (Inl JsonException, d1)))"
| "from_json_Diagram (Persisted json) d =
     (case decode_all from_json_Class (j_classes json) of
        Inl e \<Rightarrow> (Inl e, d)
      | Inr cs \<Rightarrow>
          let d1 = d\<lparr>classes := cs\<rparr> in
          (case decode_all from_json_Relationship (j_relationships json) of
             Inl e \<Rightarrow> (Inl e, d1)
           | Inr rs \<Rightarrow>
               let d2 = d1\<lparr>relationships := rs\<rparr>;
                   res =
                     and_then (Unique Class_less Class_eq (classes d2) ''class'') (\<lambda>_.
                     and_then (Unique Relationship_less Relationship_eq (relationships d2) ''relationship'') (\<lambda>_.
                       let rel_classes =
                             ranges_unique (=)
                               (ranges_sort (<)
                                  (map Relationship_Source (relationships d2) @
                                   map Relationship_Destination (relationships d2)))
                       in if \<not> ranges_includes (map Class_Name (classes d2)) rel_classes
                          then Inl NonexistentRelationshipClasses
                          else Inr ()))
               in (res, d2)))"

text \<open>
  \<^verbatim>\<open>Diagram::Load\<close>. The file system is the function \<open>files\<close>: the document parsed from the
  file of that name, or nothing when the file cannot be read or does not parse as JSON
  (\<^verbatim>\<open>parse\<close> throws before \<^verbatim>\<open>from_json\<close> is entered). Every exception becomes the error result.
\<close>

definition Load :: "(string \<Rightarrow> json_document option) \<Rightarrow> Diagram \<Rightarrow> string \<Rightarrow> unit Result \<times> Diagram" where
  "Load files d file_name =
     (case files file_name of
        None \<Rightarrow> (Inl (LoadError (CannotReadFile file_name)), d)
      | Some json \<Rightarrow>
          (case from_json_Diagram json d of
             (Inl e, d') \<Rightarrow> (Inl (LoadError e), d')
           | (Inr _, d') \<Rightarrow> (Inr (), d')))"

section \<open>commands: Command and Timeline\<close>

text \<open>
  A command holds the snapshot \<^verbatim>\<open>prior_state_\<close> and overrides two virtual functions:
  \<^verbatim>\<open>Trackable\<close>, and \<^verbatim>\<open>Execute\<close>, a \<^verbatim>\<open>const\<close> member that acts on the diagram it is given. The
  override is a field of the record.
\<close>

record Command =
  prior_state :: "Diagram option"
  Trackable :: bool
  Execute :: "Diagram \<Rightarrow> unit Result \<times> Diagram"

definition Command_Undo :: "Command \<Rightarrow> Diagram \<Rightarrow> unit Result \<times> Diagram" where
  "Command_Undo cmd diagram =
     (if \<not> Trackable cmd then (Inr (), diagram)
      else (case prior_state cmd of
              Some prior \<Rightarrow> (Inr (), prior)
            | None \<Rightarrow> (Inl NoPriorState, diagram)))"

definition Command_Commit :: "Command \<Rightarrow> Diagram \<Rightarrow> unit Result \<times> Command \<times> Diagram" where
  "Command_Commit cmd diagram =
     (let cmd' = cmd\<lparr>prior_state := Some diagram\<rparr>;
          (res, diagram') = Execute cmd' diagram
      in (res, cmd', diagram'))"

text \<open>Some of the commands of commands.hpp, by their \<^verbatim>\<open>Execute\<close>.\<close>

definition AddClassCommand :: "string \<Rightarrow> Command" where
  "AddClassCommand name =
     \<lparr>prior_state = None, Trackable = True, Execute = (\<lambda>diagram. AddClass diagram name)\<rparr>"

definition RemoveClassCommand :: "string \<Rightarrow> Command" where
  "RemoveClassCommand name =
     \<lparr>prior_state = None, Trackable = True, Execute = (\<lambda>diagram. DeleteClass diagram name)\<rparr>"

definition RenameClassCommand :: "string \<Rightarrow> string \<Rightarrow> Command" where
  "RenameClassCommand old_name new_name =
     \<lparr>prior_state = None, Trackable = True,
      Execute = (\<lambda>diagram. RenameClass diagram old_name new_name)\<rparr>"

definition AddRelationshipCommand :: "string \<Rightarrow> string \<Rightarrow> RelationshipType \<Rightarrow> Command" where
  "AddRelationshipCommand source destination type =
     \<lparr>prior_state = None, Trackable = True,
      Execute = (\<lambda>diagram. AddRelationship diagram source destination type)\<rparr>"

definition LoadCommand :: "(string \<Rightarrow> json_document option) \<Rightarrow> string \<Rightarrow> Command" where
  "LoadCommand files file_name =
     \<lparr>prior_state = None, Trackable = True, Execute = (\<lambda>diagram. Load files diagram file_name)\<rparr>"

definition ListAllCommand :: Command where
  "ListAllCommand = \<lparr>prior_state = None, Trackable = False, Execute = (\<lambda>diagram. (Inr (), diagram))\<rparr>"

record Timeline =
  timeline :: "Command list"
  index :: nat

definition Timeline_default :: Timeline where
  "Timeline_default = \<lparr>timeline = [], index = 0\<rparr>"

text \<open>
  \<^verbatim>\<open>timeline_.erase(begin() + index_, end())\<close> keeps the first \<open>index\<close> commands. An index
  beyond the size is undefined in C++; \<open>index \<le> size\<close> holds in every timeline the three
  operations build.
\<close>

definition Timeline_Add :: "Timeline \<Rightarrow> Command \<Rightarrow> Timeline" where
  "Timeline_Add tml cmd =
     (if Trackable cmd then
        \<lparr>timeline = take (index tml) (timeline tml) @ [cmd], index = index tml + 1\<rparr>
      else tml)"

definition Timeline_Undo :: "Timeline \<Rightarrow> Command Result \<times> Timeline" where
  "Timeline_Undo tml =
     (if index tml = 0 then (Inl CannotUndo, tml)
      else let tml' = tml\<lparr>index := index tml - 1\<rparr> in (Inr (timeline tml' ! index tml'), tml'))"

definition Timeline_Redo :: "Timeline \<Rightarrow> Command Result \<times> Timeline" where
  "Timeline_Redo tml =
     (if index tml \<ge> length (timeline tml) then (Inl CannotRedo, tml)
      else (Inr (timeline tml ! index tml), tml\<lparr>index := index tml + 1\<rparr>))"

text \<open>
  \<^verbatim>\<open>UndoCommand::Execute\<close> and \<^verbatim>\<open>RedoCommand::Execute\<close> act on the timeline singleton and the
  diagram.
\<close>

definition UndoCommand_Execute :: "Timeline \<times> Diagram \<Rightarrow> unit Result \<times> Timeline \<times> Diagram" where
  "UndoCommand_Execute s =
     (case Timeline_Undo (fst s) of
        (Inl e, tml) \<Rightarrow> (Inl e, tml, snd s)
      | (Inr cmd, tml) \<Rightarrow> (let (res, diagram) = Command_Undo cmd (snd s) in (res, tml, diagram)))"

definition RedoCommand_Execute :: "Timeline \<times> Diagram \<Rightarrow> unit Result \<times> Timeline \<times> Diagram" where
  "RedoCommand_Execute s =
     (case Timeline_Redo (fst s) of
        (Inl e, tml) \<Rightarrow> (Inl e, tml, snd s)
      | (Inr cmd, tml) \<Rightarrow> (let (res, diagram) = Execute cmd (snd s) in (res, tml, diagram)))"

text \<open>
  One round of the loop of \<^verbatim>\<open>cli::CLI\<close> for a parsed command: \<^verbatim>\<open>Commit\<close>, and on success
  \<^verbatim>\<open>Timeline::Add\<close>.
\<close>

definition CLI_step :: "Command \<Rightarrow> Timeline \<times> Diagram \<Rightarrow> unit Result \<times> Timeline \<times> Diagram" where
  "CLI_step cmd s =
     (case Command_Commit cmd (snd s) of
        (Inl e, cmd', diagram) \<Rightarrow> (Inl e, fst s, diagram)
      | (Inr _, cmd', diagram) \<Rightarrow> (Inr (), Timeline_Add (fst s) cmd', diagram))"

text \<open>A sequence of rounds in which every command succeeds; \<open>None\<close> if one fails.\<close>

fun CLI_steps :: "Command list \<Rightarrow> Timeline \<times> Diagram \<Rightarrow> (Timeline \<times> Diagram) option" where
  "CLI_steps [] s = Some s"
| "CLI_steps (cmd # cmds) s =
     (case CLI_step cmd s of
        (Inl e, s') \<Rightarrow> None
      | (Inr _, s') \<Rightarrow> CLI_steps cmds s')"

text \<open>\<open>n\<close> times \<^verbatim>\<open>undo\<close>, or \<^verbatim>\<open>redo\<close>, each of which succeeds; \<open>None\<close> if one fails.\<close>

fun repeat_ok :: "('s \<Rightarrow> unit Result \<times> 's) \<Rightarrow> nat \<Rightarrow> 's \<Rightarrow> 's option" where
  "repeat_ok f 0 s = Some s"
| "repeat_ok f (Suc n) s =
     (case f s of
        (Inl e, s') \<Rightarrow> None
      | (Inr _, s') \<Rightarrow> repeat_ok f n s')"

text \<open>
  The history a run of successful rounds records: trackable commands, each holding the
  diagram it was committed on as its snapshot, and each taking that diagram to the next
  one without error.
\<close>

fun recorded :: "Diagram \<Rightarrow> Command list \<Rightarrow> Diagram \<Rightarrow> bool" where
  "recorded d [] d' = (d' = d)"
| "recorded d (cmd # cmds) d' =
     (Trackable cmd \<and> prior_state cmd = Some d \<and> fst (Execute cmd d) = Inr () \<and>
      recorded (snd (Execute cmd d)) cmds d')"

section \<open>Example values\<close>

definition tml_ab :: Timeline where
  "tml_ab = \<lparr>timeline = [AddClassCommand ''a'', AddClassCommand ''b''], index = 1\<rparr>"

definition class_named :: "string \<Rightarrow> Class" where
  "class_named name = Class_default\<lparr>Class_Name := name\<rparr>"

definition relationship_ab :: Relationship where
  "relationship_ab =
     \<lparr>Relationship_Source = ''a'', Relationship_Destination = ''b'', Relationship_Type = Aggregation\<rparr>"

definition diagram_ab :: Diagram where
  "diagram_ab = \<lparr>classes = [class_named ''a'', class_named ''b''], relationships = [relationship_ab]\<rparr>"

definition field_a :: Field where
  "field_a = \<lparr>Field_Name = ''a'', Field_Type = ''int''\<rparr>"

definition class_with_field :: "Field \<Rightarrow> Class" where
  "class_with_field f = Class_default\<lparr>Class_Fields := [f]\<rparr>"

definition json_class_named :: "string \<Rightarrow> json_class" where
  "json_class_named name =
     \<lparr>jc_name = name, jc_fields = [], jc_methods = [], jc_position = \<lparr>Point_x = 0, Point_y = 0\<rparr>\<rparr>"

text \<open>A document with two classes of one name, and a file system that holds it.\<close>

definition json_duplicate_classes :: json_diagram where
  "json_duplicate_classes =
     \<lparr>j_classes = [json_class_named ''a'', json_class_named ''a''], j_relationships = []\<rparr>"

text \<open>A document whose only relationship names classes that are not in it.\<close>

definition json_dangling :: json_diagram where
  "json_dangling =
     \<lparr>j_classes = [json_class_named ''a''],
      j_relationships = [\<lparr>jr_source = ''a'', jr_destination = ''b'', jr_type = ''Aggregation''\<rparr>]\<rparr>"

text \<open>
  A document whose \<^verbatim>\<open>"classes"\<close> hold the class \<open>c\<close> and that has no \<^verbatim>\<open>"relationships"\<close>, and a
  document without \<^verbatim>\<open>"classes"\<close>.
\<close>

definition json_without_relationships :: json_document where
  "json_without_relationships = Misshapen_relationships [json_class_named ''c''] []"

definition json_without_classes :: json_document where
  "json_without_classes = Misshapen_classes []"

definition example_files :: "string \<Rightarrow> json_document option" where
  "example_files file_name =
     (if file_name = ''duplicate.json'' then Some (Persisted json_duplicate_classes)
      else if file_name = ''dangling.json'' then Some (Persisted json_dangling)
      else if file_name = ''no_relationships.json'' then Some json_without_relationships
      else if file_name = ''no_classes.json'' then Some json_without_classes
      else None)"

definition example_commands :: "Command list" where
  "example_commands =
     [AddClassCommand ''a'', AddClassCommand ''b'', AddRelationshipCommand ''a'' ''b'' Aggregation]"

definition param :: "string \<Rightarrow> string \<Rightarrow> Parameter" where
  "param name type = \<lparr>Parameter_Name = name, Parameter_Type = type\<rparr>"

text \<open>The methods \<^verbatim>\<open>f(b:int)->void\<close> and \<^verbatim>\<open>f(a:float,c:int)->void\<close>.\<close>

definition method_f_int :: Method where
  "method_f_int =
     \<lparr>Method_Name = ''f'', Method_ReturnType = ''void'', Method_Parameters = [param ''b'' ''int'']\<rparr>"

definition method_f_float_int :: Method where
  "method_f_float_int =
     \<lparr>Method_Name = ''f'', Method_ReturnType = ''void'',
      Method_Parameters = [param ''a'' ''float'', param ''c'' ''int'']\<rparr>"

definition class_with_methods :: "Method list \<Rightarrow> Class" where
  "class_with_methods ms = Class_default\<lparr>Class_Methods := ms\<rparr>"

text \<open>The signatures \<^verbatim>\<open>f(int)\<close> and \<^verbatim>\<open>f(float,int)\<close>.\<close>

definition signature_f_int :: MethodSignature where
  "signature_f_int = \<lparr>MethodSignature_Name = ''f'', MethodSignature_ParameterTypes = [''int'']\<rparr>"

definition signature_f_float_int :: MethodSignature where
  "signature_f_float_int =
     \<lparr>MethodSignature_Name = ''f'', MethodSignature_ParameterTypes = [''float'', ''int'']\<rparr>"

text \<open>The class with the methods \<^verbatim>\<open>f(b:int)->void\<close> and \<^verbatim>\<open>f(a:float,c:int)->void\<close>.\<close>

definition class_f_f :: Class where
  "class_f_f = class_with_methods [method_f_int, method_f_float_int]"

definition void_method :: "string \<Rightarrow> Parameter list \<Rightarrow> Method" where
  "void_method name parameters =
     \<lparr>Method_Name = name, Method_ReturnType = ''void'', Method_Parameters = parameters\<rparr>"

text \<open>The name and the parameter types of each method of a class, in the order of the class.\<close>

definition method_signatures :: "Class \<Rightarrow> (string \<times> string list) list" where
  "method_signatures c =
     map (\<lambda>m. (Method_Name m, map Parameter_Type (Method_Parameters m))) (Class_Methods c)"

section \<open>General lemmas\<close>

subsection \<open>The static vector of \<^verbatim>\<open>ValidType\<close>\<close>

text \<open>
  A call returns the same result whatever the vector holds on entry, leaves the vector as
  it found it when it succeeds, and may leave closers behind when it fails.
\<close>

lemma ValidType_st_TypeList_uniform:
  fixes stack stack2 :: "char list"
  shows "\<exists>r leak. (has_value r \<longrightarrow> leak = []) \<and> (\<forall>stk. ValidType_st t start stk = (r, leak @ stk))"
    and "\<forall>c rest0. stack2 = c # rest0 \<longrightarrow>
     (\<exists>r leak. (has_value r \<longrightarrow> leak = []) \<and>
        (\<forall>rest. TypeList t2 start2 first (c # rest) = (r, leak @ rest)))"
proof (induction t start stack and t2 start2 first stack2 rule: ValidType_st_TypeList.induct)
  case (1 t start stack)
  show ?case
  proof (cases "ValidIdentifier t start")
    case (Inl e)
    then have "\<forall>stk. ValidType_st t start stk = (Inl e, [] @ stk)"
      by (simp add: ValidType_st.simps)
    then show ?thesis by (intro exI [of _ "Inl e"] exI [of _ "[]"]) (simp add: has_value_def)
  next
    case (Inr i)
    show ?thesis
    proof (cases "i = length t")
      case True
      with Inr have "\<forall>stk. ValidType_st t start stk = (Inr i, [] @ stk)"
        by (simp add: ValidType_st.simps)
      then show ?thesis by (intro exI [of _ "Inr i"] exI [of _ "[]"]) simp
    next
      case False
      show ?thesis
      proof (cases "closer (t ! i)")
        case None
        with Inr False
        have "\<forall>stk. ValidType_st t start stk =
                (if t ! i = CHR ''*'' then Inr (scan_while is_star t (i + 1)) else Inr i, [] @ stk)"
          by (simp add: ValidType_st.simps)
        then show ?thesis
          by (intro exI [of _ "if t ! i = CHR ''*'' then Inr (scan_while is_star t (i + 1)) else Inr i"]
                    exI [of _ "[]"]) simp
      next
        case (Some c)
        show ?thesis
        proof (cases "i + 1 = length t")
          case True
          with Inr False Some
          have "\<forall>stk. ValidType_st t start stk = (Inl ExpectedMore, [] @ stk)"
            by (simp add: ValidType_st.simps)
          then show ?thesis
            by (intro exI [of _ "Inl ExpectedMore"] exI [of _ "[]"]) (simp add: has_value_def)
        next
          case F2: False
          from 1 [OF Inr False Some F2]
          obtain r leak where rl: "has_value r \<longrightarrow> leak = []"
            "\<forall>rest. TypeList t (i + 1) True (c # rest) = (r, leak @ rest)"
            by blast
          from Inr False Some F2 rl(2)
          have "\<forall>stk. ValidType_st t start stk = (r, leak @ stk)"
            by (simp add: ValidType_st.simps)
          with rl(1) show ?thesis by blast
        qed
      qed
    qed
  qed
next
  case (2 t start first stack)
  show ?case
  proof (intro allI impI)
    fix c rest0
    assume stack: "stack = c # rest0"
    show "\<exists>r leak. (has_value r \<longrightarrow> leak = []) \<and>
            (\<forall>rest. TypeList t start first (c # rest) = (r, leak @ rest))"
    proof (cases "length t \<le> start")
      case True
      then have "\<forall>rest. TypeList t start first (c # rest) = (Inl OutOfRange, [c] @ rest)"
        by (simp add: TypeList.simps)
      then show ?thesis
        by (intro exI [of _ "Inl OutOfRange"] exI [of _ "[c]"]) (simp add: has_value_def)
    next
      case inb: False
      show ?thesis
      proof (cases "t ! start \<noteq> c")
        case False
        with inb
        have "\<forall>rest. TypeList t start first (c # rest) = (Inr (scan_while is_star t (start + 1)), [] @ rest)"
          by (simp add: TypeList.simps)
        then show ?thesis
          by (intro exI [of _ "Inr (scan_while is_star t (start + 1))"] exI [of _ "[]"]) simp
      next
        case nb: True
        show ?thesis
        proof (cases "\<not> first \<and> t ! start \<noteq> CHR '',''")
          case True
          with inb nb
          have "\<forall>rest. TypeList t start first (c # rest) =
                  (Inl (ExpectedComma (t ! start) start), [c] @ rest)"
            by (simp add: TypeList.simps)
          then show ?thesis
            by (intro exI [of _ "Inl (ExpectedComma (t ! start) start)"] exI [of _ "[c]"])
               (simp add: has_value_def)
        next
          case ok: False
          let ?s = "if first then start else start + 1"
          from 2(1) [OF stack inb nb ok]
          obtain r1 leak1 where rl1: "has_value r1 \<longrightarrow> leak1 = []"
            "\<forall>stk. ValidType_st t ?s stk = (r1, leak1 @ stk)"
            by blast
          have unfold: "TypeList t start first (c # rest) =
              (case (r1, leak1 @ c # rest) of
                 (Inl e, stack') \<Rightarrow> (Inl e, tl stack')
               | (Inr start', stack') \<Rightarrow>
                   if start' = length t then (Inl UnexpectedEnd, tl stack')
                   else TypeList t start' False stack')" for rest
            using inb nb ok rl1(2) by (subst TypeList.simps) (auto split: if_splits)
          show ?thesis
          proof (cases r1)
            case (Inl e)
            define lk where "lk = tl (leak1 @ [c])"
            have "tl (leak1 @ c # rest) = lk @ rest" for rest
              unfolding lk_def by (cases leak1) simp_all
            with unfold Inl
            have "\<forall>rest. TypeList t start first (c # rest) = (Inl e, lk @ rest)"
              by simp
            then show ?thesis
              by (intro exI [of _ "Inl e"] exI [of _ lk]) (simp add: has_value_def)
          next
            case (Inr b)
            with rl1 have l1: "leak1 = []" by (simp add: has_value_def)
            show ?thesis
            proof (cases "b = length t")
              case True
              with unfold Inr l1
              have "\<forall>rest. TypeList t start first (c # rest) = (Inl UnexpectedEnd, [] @ rest)"
                by simp
              then show ?thesis
                by (intro exI [of _ "Inl UnexpectedEnd"] exI [of _ "[]"]) (simp add: has_value_def)
            next
              case False
              from rl1(2) l1 Inr have call: "(Inr b, stack) = ValidType_st t ?s stack"
                by simp
              from 2(2) [OF stack inb nb ok call refl False] stack
              obtain r leak where rl: "has_value r \<longrightarrow> leak = []"
                "\<forall>rest. TypeList t b False (c # rest) = (r, leak @ rest)"
                by blast
              from unfold Inr l1 False rl(2)
              have "\<forall>rest. TypeList t start first (c # rest) = (r, leak @ rest)"
                by simp
              with rl(1) show ?thesis by blast
            qed
          qed
        qed
      qed
    qed
  qed
qed

lemma ValidType_st_stack:
  "\<exists>leak. ValidType_st t start stack = (ValidType t start, leak @ stack) \<and>
          (has_value (ValidType t start) \<longrightarrow> leak = [])"
proof -
  from ValidType_st_TypeList_uniform(1) [of t start]
  obtain r leak where rl: "has_value r \<longrightarrow> leak = []"
    "\<forall>stk. ValidType_st t start stk = (r, leak @ stk)"
    by blast
  from rl(2) have "ValidType t start = r" by (simp add: ValidType_def)
  with rl show ?thesis by auto
qed

subsection \<open>\<^verbatim>\<open>ValidType\<close> without the vector\<close>

lemma ValidType_st_result: "fst (ValidType_st t start stack) = ValidType t start"
  using ValidType_st_stack [of t start stack] by auto

lemma ValidType_st_success:
  "ValidType t start = Inr e \<Longrightarrow> ValidType_st t start stack = (Inr e, stack)"
  using ValidType_st_stack [of t start stack] by (auto simp: has_value_def)

lemma TypeList_result: "fst (TypeList t start first (c # rest)) = TList t start first c"
proof -
  from ValidType_st_TypeList_uniform(2) [of "[c]" t start first]
  obtain r leak where "\<forall>rest. TypeList t start first (c # rest) = (r, leak @ rest)"
    by blast
  then show ?thesis by (simp add: TList_def)
qed

lemma ValidType_unfold:
  "ValidType t start =
     (case ValidIdentifier t start of
        Inl e \<Rightarrow> Inl e
      | Inr i \<Rightarrow>
          if i = length t then Inr i
          else (case closer (t ! i) of
                  Some c \<Rightarrow> if i + 1 = length t then Inl ExpectedMore else TList t (i + 1) True c
                | None \<Rightarrow> if t ! i = CHR ''*'' then Inr (scan_while is_star t (i + 1)) else Inr i))"
  unfolding ValidType_def TList_def
  by (subst ValidType_st.simps) (simp split: sum.splits option.splits)

lemma TList_unfold:
  "TList t start first c =
     (if length t \<le> start then Inl OutOfRange
      else if t ! start \<noteq> c then
        (if \<not> first \<and> t ! start \<noteq> CHR '','' then Inl (ExpectedComma (t ! start) start)
         else (case ValidType t (if first then start else start + 1) of
                 Inl e \<Rightarrow> Inl e
               | Inr start' \<Rightarrow>
                   if start' = length t then Inl UnexpectedEnd else TList t start' False c))
      else Inr (scan_while is_star t (start + 1)))"
proof -
  let ?s = "if first then start else start + 1"
  obtain leak where call: "ValidType_st t ?s [c] = (ValidType t ?s, leak @ [c])"
    and ok: "has_value (ValidType t ?s) \<longrightarrow> leak = []"
    using ValidType_st_stack [of t ?s "[c]"] by blast
  show ?thesis
  proof (cases "ValidType t ?s")
    case (Inl e)
    with call show ?thesis
      unfolding TList_def by (subst TypeList.simps) (auto split: if_splits)
  next
    case (Inr b)
    with ok have "leak = []" by (simp add: has_value_def)
    with call Inr show ?thesis
      unfolding TList_def by (subst TypeList.simps) (auto split: if_splits)
  qed
qed

lemma ValidType_needs_identifier:
  "ValidIdentifier t start = Inl e \<Longrightarrow> ValidType t start = Inl e"
  by (subst ValidType_unfold) simp

text \<open>Induction along the calls of \<^verbatim>\<open>ValidType\<close> and its loop.\<close>

lemma ValidType_TList_induct [case_names ValidType TList]:
  assumes vt: "\<And>t start.
      (\<And>i c. ValidIdentifier t start = Inr i \<Longrightarrow> i \<noteq> length t \<Longrightarrow> closer (t ! i) = Some c \<Longrightarrow>
         i + 1 \<noteq> length t \<Longrightarrow> Q t (i + 1) True c) \<Longrightarrow> P t start"
    and tl: "\<And>t start first c.
      (start < length t \<Longrightarrow> t ! start \<noteq> c \<Longrightarrow> first \<or> t ! start = CHR '','' \<Longrightarrow>
         P t (if first then start else start + 1)) \<Longrightarrow>
      (\<And>b. start < length t \<Longrightarrow> t ! start \<noteq> c \<Longrightarrow> first \<or> t ! start = CHR '','' \<Longrightarrow>
         ValidType t (if first then start else start + 1) = Inr b \<Longrightarrow> b \<noteq> length t \<Longrightarrow>
         Q t b False c) \<Longrightarrow> Q t start first c"
  shows "P t start" and "Q t2 start2 first2 c2"
proof -
  have "P t start" and "\<forall>c rest. stack2 = c # rest \<longrightarrow> Q t2 start2 first2 c"
    for stack :: "char list" and stack2 :: "char list"
  proof (induction t start stack and t2 start2 first2 stack2 rule: ValidType_st_TypeList.induct)
    case (1 t start stack)
    show ?case
      by (rule vt) (use 1 in blast)
  next
    case (2 t start first stack)
    show ?case
    proof (intro allI impI)
      fix c rest
      assume stack: "stack = c # rest"
      show "Q t start first c"
      proof (rule tl)
        assume "start < length t" "t ! start \<noteq> c" "first \<or> t ! start = CHR '',''"
        then show "P t (if first then start else start + 1)"
          using 2(1) [OF stack] by auto
      next
        fix b
        assume a: "start < length t" "t ! start \<noteq> c" "first \<or> t ! start = CHR '',''"
          and b: "ValidType t (if first then start else start + 1) = Inr b" "b \<noteq> length t"
        from ValidType_st_success [OF b(1), of stack]
        have call: "(Inr b, stack) = ValidType_st t (if first then start else start + 1) stack"
          by simp
        from a have c1: "\<not> length t \<le> start" and c3: "\<not> (\<not> first \<and> t ! start \<noteq> CHR '','')"
          by auto
        from 2(2) [OF stack c1 a(2) c3 call refl b(2)] stack
        show "Q t b False c" by simp
      qed
    qed
  qed
  then show "P t start" and "Q t2 start2 first2 c2" by blast+
qed


lemma ValidType_TList_bounds:
  "\<forall>e. ValidType t start = Inr e \<longrightarrow> start < e \<and> e \<le> length t"
  "\<forall>e. TList t2 start2 first2 c2 = Inr e \<longrightarrow> start2 < e \<and> e \<le> length t2"
proof (induction t start and t2 start2 first2 c2 rule: ValidType_TList_induct)
  case (ValidType t start)
  show ?case
  proof (intro allI impI)
    fix e assume eq: "ValidType t start = Inr e"
    then obtain i where i: "ValidIdentifier t start = Inr i"
      by (subst (asm) ValidType_unfold) (auto split: sum.splits)
    note b = ValidIdentifier_bounds [OF i]
    show "start < e \<and> e \<le> length t"
    proof (cases "i \<noteq> length t \<and> closer (t ! i) \<noteq> None \<and> i + 1 \<noteq> length t")
      case True
      then obtain c where c: "closer (t ! i) = Some c" by auto
      with eq i True have "TList t (i + 1) True c = Inr e"
        by (subst (asm) ValidType_unfold) simp
      with ValidType [OF i _ c] True b show ?thesis by auto
    next
      case False
      with eq i b scan_while_ge [of "i + 1" is_star t] scan_while_le [of "i + 1" t is_star]
      show ?thesis
        by (subst (asm) ValidType_unfold) (auto split: option.splits if_splits)
    qed
  qed
next
  case (TList t start first c)
  show ?case
  proof (intro allI impI)
    fix e assume eq: "TList t start first c = Inr e"
    then have inb: "start < length t"
      by (subst (asm) TList_unfold) (auto split: if_splits)
    show "start < e \<and> e \<le> length t"
    proof (cases "t ! start \<noteq> c")
      case False
      with eq inb scan_while_ge [of "start + 1" is_star t] scan_while_le [of "start + 1" t is_star]
      show ?thesis by (subst (asm) TList_unfold) auto
    next
      case True
      with eq inb have ok: "first \<or> t ! start = CHR '',''"
        by (subst (asm) TList_unfold) (auto split: if_splits)
      from eq inb True ok obtain b where b: "ValidType t (if first then start else start + 1) = Inr b"
        "b \<noteq> length t" "TList t b False c = Inr e"
        by (subst (asm) TList_unfold) (auto split: if_splits sum.splits)
      from TList(1) [OF inb True ok] b(1)
      have "(if first then start else start + 1) < b" by simp
      moreover from TList(2) [OF inb True ok b(1,2)] b(3) have "b < e \<and> e \<le> length t" by simp
      ultimately show ?thesis by (auto split: if_splits)
    qed
  qed
qed

lemma ValidType_bounds: "ValidType t start = Inr e \<Longrightarrow> start < e \<and> e \<le> length t"
  using ValidType_TList_bounds(1) by blast

subsection \<open>Checks and lookups\<close>

lemma has_value_simps [simp]: "has_value (Inr v)" "\<not> has_value (Inl e)"
  by (simp_all add: has_value_def)

lemma has_value_iff: "has_value r \<longleftrightarrow> (\<exists>v. r = Inr v)"
  by (cases r) simp_all

lemma not_has_value_iff: "\<not> has_value r \<longleftrightarrow> (\<exists>e. r = Inl e)"
  by (cases r) simp_all

lemma and_then_simps [simp]:
  "and_then (Inl e) f = Inl e" "and_then (Inr v) f = f v"
  by (simp_all add: and_then_def)

lemma transform_simps [simp]:
  "transform (Inl e) g = Inl e" "transform (Inr v) g = Inr (g v)"
  by (simp_all add: transform_def)

lemma Check_cases:
  "Check Fn entity tag = (if has_value (Fn entity 0) then Inr () else Inl (Invalid tag entity (projl (Fn entity 0))))"
  by (cases "Fn entity 0") (simp_all add: Check_def)

lemma Check_ok: "has_value (Fn entity 0) \<Longrightarrow> Check Fn entity tag = Inr ()"
  by (simp add: Check_cases)

lemma Check_fails: "\<not> has_value (Fn entity 0) \<Longrightarrow> \<exists>e. Check Fn entity tag = Inl e"
  by (simp add: Check_cases)

lemma ranges_find_if_None: "ranges_find_if P xs = None \<longleftrightarrow> (\<forall>x \<in> set xs. \<not> P x)"
  by (induction xs) auto

lemma ranges_find_if_Some:
  "ranges_find_if P xs = Some i \<Longrightarrow> i < length xs \<and> P (xs ! i)"
  by (induction xs arbitrary: i) (auto split: if_splits)

lemma ranges_find_if_found: "x \<in> set xs \<Longrightarrow> P x \<Longrightarrow> \<exists>i. ranges_find_if P xs = Some i"
  using ranges_find_if_None [of P xs] by (cases "ranges_find_if P xs") auto

lemma GetClass_has_value:
  "has_value (GetClass d name) \<longleftrightarrow>
     has_value (ValidType name 0) \<and> name \<in> set (GetClassNames d)"
proof (cases "ValidType name 0")
  case (Inl e)
  then show ?thesis by (simp add: GetClass_def Check_def)
next
  case (Inr v)
  show ?thesis
  proof (cases "ranges_find_if (\<lambda>c. Class_Name c = name) (classes d)")
    case None
    with Inr ranges_find_if_None [of "\<lambda>c. Class_Name c = name" "classes d"]
    show ?thesis by (auto simp: GetClass_def Check_def GetClassNames_def)
  next
    case (Some i)
    with Inr ranges_find_if_Some [OF Some]
    show ?thesis by (auto simp: GetClass_def Check_def GetClassNames_def)
  qed
qed

lemma GetRelationship_found:
  assumes "has_value (ValidType src 0)" and "has_value (ValidType dst 0)"
    and "r \<in> set (relationships d)"
    and "Relationship_Source r = src" and "Relationship_Destination r = dst"
  shows "has_value (GetRelationship d src dst)"
proof -
  from ranges_find_if_found [of r "relationships d"
      "\<lambda>r. Relationship_Source r = src \<and> Relationship_Destination r = dst"] assms(3-5)
  obtain i where "ranges_find_if (\<lambda>r. Relationship_Source r = src \<and> Relationship_Destination r = dst)
      (relationships d) = Some i" by auto
  with assms(1,2) show ?thesis
    by (simp add: GetRelationship_def Check_ok)
qed

subsection \<open>Identifiers\<close>

lemma scan_while_full:
  "start \<le> length t \<Longrightarrow> scan_while P t start = length t \<longleftrightarrow> list_all P (drop start t)"
proof (induction P t start rule: scan_while.induct)
  case (1 P t start)
  show ?case
  proof (cases "start < length t")
    case False
    with 1(2) show ?thesis by (subst scan_while.simps) simp
  next
    case True
    then have d: "drop start t = t ! start # drop (Suc start) t"
      by (simp add: Cons_nth_drop_Suc)
    show ?thesis
    proof (cases "P (t ! start)")
      case False
      with True d show ?thesis by (subst scan_while.simps) simp
    next
      case P: True
      with True have "scan_while P t start = scan_while P t (start + 1)"
        by (subst scan_while.simps) simp
      with 1(1) True P d show ?thesis by simp
    qed
  qed
qed

lemma is_Identifier_iff: "is_Identifier s \<longleftrightarrow> ValidIdentifier s 0 = Inr (length s)"
proof (cases s)
  case Nil
  then show ?thesis by (simp add: is_Identifier_def ValidIdentifier_def)
next
  case (Cons c cs)
  with scan_while_full [of 1 s AlNum] show ?thesis
    by (auto simp: is_Identifier_def ValidIdentifier_def)
qed

subsection \<open>Sorting\<close>

lemma set_insort_by: "set (insort_by lt x xs) = insert x (set xs)"
  by (induction xs) auto

lemma set_ranges_sort: "set (ranges_sort lt xs) = set xs"
  by (induction xs) (simp_all add: ranges_sort_def set_insort_by)

lemma length_insort_by: "length (insort_by lt x xs) = Suc (length xs)"
  by (induction xs) auto

lemma length_ranges_sort: "length (ranges_sort lt xs) = length xs"
  by (induction xs) (simp_all add: ranges_sort_def length_insort_by)

subsection \<open>Decoding and the checks of \<^verbatim>\<open>from_json\<close>\<close>

lemma set_ranges_unique: "set (ranges_unique (=) xs) = set xs"
  by (induction "(=) :: 'a \<Rightarrow> 'a \<Rightarrow> bool" xs rule: ranges_unique.induct) auto

lemma ranges_includes_subset: "ranges_includes xs ys \<Longrightarrow> set ys \<subseteq> set xs"
  by (induction xs ys rule: ranges_includes.induct) (auto split: if_splits)

lemma decode_all_map:
  assumes "decode_all dec js = Inr vs" and "\<And>j v. dec j = Inr v \<Longrightarrow> g v = h j"
  shows "map g vs = map h js"
  using assms(1)
proof (induction js arbitrary: vs)
  case Nil
  then show ?case by simp
next
  case (Cons j js)
  then show ?case
    by (auto split: sum.splits dest: assms(2))
qed

lemma from_json_Class_name: "from_json_Class j = Inr c \<Longrightarrow> Class_Name c = jc_name j"
  by (auto simp: from_json_Class_def and_then_def transform_def split: sum.splits)

lemma from_json_Relationship_ends:
  "from_json_Relationship j = Inr r \<Longrightarrow>
     Relationship_Source r = jr_source j \<and> Relationship_Destination r = jr_destination j"
  by (auto simp: from_json_Relationship_def Relationship_From_def and_then_def transform_def
           split: sum.splits)

lemma from_json_Diagram_rejects_dangling:
  assumes "r \<in> set (j_relationships json)"
    and "jr_source r \<notin> set (map jc_name (j_classes json)) \<or>
         jr_destination r \<notin> set (map jc_name (j_classes json))"
  shows "\<exists>e. fst (from_json_Diagram (Persisted json) d) = Inl e"
proof (cases "decode_all from_json_Class (j_classes json)")
  case (Inl e)
  then show ?thesis by simp
next
  case cs: (Inr cs)
  show ?thesis
  proof (cases "decode_all from_json_Relationship (j_relationships json)")
    case (Inl e)
    with cs show ?thesis by simp
  next
    case rs: (Inr rs)
    from decode_all_map [OF cs, of Class_Name jc_name] from_json_Class_name
    have names: "map Class_Name cs = map jc_name (j_classes json)" by blast
    from decode_all_map [OF rs, of Relationship_Source jr_source] from_json_Relationship_ends
    have srcs: "map Relationship_Source rs = map jr_source (j_relationships json)" by blast
    from decode_all_map [OF rs, of Relationship_Destination jr_destination] from_json_Relationship_ends
    have dsts: "map Relationship_Destination rs = map jr_destination (j_relationships json)" by blast
    let ?rel_classes = "ranges_unique (=) (ranges_sort (<)
        (map Relationship_Source rs @ map Relationship_Destination rs))"
    have "set ?rel_classes = jr_source ` set (j_relationships json) \<union> jr_destination ` set (j_relationships json)"
      by (simp add: set_ranges_unique set_ranges_sort srcs dsts)
    with assms have "\<not> set ?rel_classes \<subseteq> set (map Class_Name cs)"
      unfolding names by auto
    with ranges_includes_subset have ni: "\<not> ranges_includes (map Class_Name cs) ?rel_classes"
      by blast
    show ?thesis
    proof (cases "Unique Class_less Class_eq cs ''class''")
      case (Inl e)
      with cs rs show ?thesis by simp
    next
      case u1: (Inr u)
      show ?thesis
      proof (cases "Unique Relationship_less Relationship_eq rs ''relationship''")
        case (Inl e)
        with cs rs u1 show ?thesis by simp
      next
        case (Inr u')
        with cs rs u1 ni show ?thesis by simp
      qed
    qed
  qed
qed

text \<open>
  A document without \<^verbatim>\<open>"relationships"\<close> has replaced the classes when the library throws; a
  document without \<^verbatim>\<open>"classes"\<close> has replaced nothing.
\<close>

lemma Load_of_misshapen_documents:
  "Load example_files diagram_ab ''no_relationships.json''
     = (Inl (LoadError JsonException),
        \<lparr>classes = [class_named ''c''], relationships = [relationship_ab]\<rparr>) \<and>
   Load example_files diagram_ab ''no_classes.json'' = (Inl (LoadError JsonException), diagram_ab)"
  by code_simp

subsection \<open>Runs of the command loop\<close>

lemma recorded_snoc:
  "recorded d (cmds @ [cmd]) d' \<longleftrightarrow>
     (\<exists>dm. recorded d cmds dm \<and> Trackable cmd \<and> prior_state cmd = Some dm \<and>
           Execute cmd dm = (Inr (), d'))"
proof (induction cmds arbitrary: d)
  case Nil
  show ?case by (cases "Execute cmd d") auto
next
  case (Cons c cmds)
  then show ?case by auto
qed

lemma CLI_steps_recorded:
  assumes "\<forall>c \<in> set cmds. Trackable c"
    and "index tml \<le> length (timeline tml)"
    and "CLI_steps cmds (tml, d) = Some (tml', d')"
  shows "\<exists>cs post. timeline tml' = take (index tml) (timeline tml) @ cs @ post \<and>
              index tml' = index tml + length cs \<and> length cs = length cmds \<and> recorded d cs d'"
  using assms
proof (induction cmds arbitrary: tml d)
  case Nil
  then have "timeline tml' = take (index tml) (timeline tml) @ [] @ drop (index tml) (timeline tml) \<and>
      index tml' = index tml + length ([] :: Command list) \<and>
      length ([] :: Command list) = length ([] :: Command list) \<and> recorded d [] d'"
    by simp
  then show ?case by blast
next
  case (Cons c cmds)
  let ?c = "c\<lparr>prior_state := Some d\<rparr>"
  obtain res d1 where ex: "Execute c d = (res, d1)" by (cases "Execute c d")
  from Cons.prems(3) ex have res: "res = Inr ()"
    by (cases res) (simp_all add: CLI_step_def Command_Commit_def)
  from Cons.prems(1) have tr: "Trackable c" by simp
  let ?tml1 = "Timeline_Add tml ?c"
  from ex res have step: "CLI_step c (tml, d) = (Inr (), ?tml1, d1)"
    by (simp add: CLI_step_def Command_Commit_def)
  with Cons.prems(3) have rest: "CLI_steps cmds (?tml1, d1) = Some (tml', d')" by simp
  from tr Cons.prems(2) have t1: "timeline ?tml1 = take (index tml) (timeline tml) @ [?c]"
    "index ?tml1 = index tml + 1"
    by (simp_all add: Timeline_Add_def)
  with Cons.prems(2) have inv1: "index ?tml1 \<le> length (timeline ?tml1)" by simp
  from Cons.IH [OF _ inv1 rest] Cons.prems(1)
  obtain cs post where cs: "timeline tml' = take (index ?tml1) (timeline ?tml1) @ cs @ post"
    "index tml' = index ?tml1 + length cs" "length cs = length cmds" "recorded d1 cs d'"
    by auto
  from t1 Cons.prems(2) have "take (index ?tml1) (timeline ?tml1) = take (index tml) (timeline tml) @ [?c]"
    by simp
  with cs t1 tr ex res
  have "timeline tml' = take (index tml) (timeline tml) @ (?c # cs) @ post \<and>
        index tml' = index tml + length (?c # cs) \<and> length (?c # cs) = length (c # cmds) \<and>
        recorded d (?c # cs) d'"
    by simp
  then show ?case by blast
qed

lemma undo_recorded:
  assumes "timeline tml = pre @ cs @ post" and "index tml = length pre + length cs"
    and "recorded d cs d'"
  shows "repeat_ok UndoCommand_Execute (length cs) (tml, d') = Some (tml\<lparr>index := length pre\<rparr>, d)"
  using assms
proof (induction cs arbitrary: tml d' post rule: rev_induct)
  case Nil
  then show ?case by simp
next
  case (snoc c cs)
  from snoc.prems(3) obtain dm where dm: "recorded d cs dm" "Trackable c"
    "prior_state c = Some dm" "Execute c dm = (Inr (), d')"
    by (auto simp: recorded_snoc)
  let ?tml1 = "tml\<lparr>index := length pre + length cs\<rparr>"
  from snoc.prems(1,2) have "timeline tml ! (length pre + length cs) = c"
    by (simp add: nth_append)
  with snoc.prems(2) have "Timeline_Undo tml = (Inr c, ?tml1)"
    by (simp add: Timeline_Undo_def Let_def)
  with dm(2,3) have step: "UndoCommand_Execute (tml, d') = (Inr (), ?tml1, dm)"
    by (simp add: UndoCommand_Execute_def Command_Undo_def)
  from snoc.prems(1) have t1: "timeline ?tml1 = pre @ cs @ (c # post)" "index ?tml1 = length pre + length cs"
    by simp_all
  from snoc.IH [OF t1 dm(1)] step show ?case by simp
qed

lemma redo_recorded:
  assumes "timeline tml = pre @ cs @ post" and "index tml = length pre"
    and "recorded d cs d'"
  shows "repeat_ok RedoCommand_Execute (length cs) (tml, d)
           = Some (tml\<lparr>index := length pre + length cs\<rparr>, d')"
  using assms
proof (induction cs arbitrary: tml d pre)
  case Nil
  then show ?case by simp
next
  case (Cons c cs)
  obtain dm where dm: "Execute c d = (Inr (), dm)" "recorded dm cs d'"
    using Cons.prems(3) by (cases "Execute c d") auto
  let ?tml1 = "tml\<lparr>index := length pre + 1\<rparr>"
  from Cons.prems(1,2) have "timeline tml ! index tml = c" "index tml < length (timeline tml)"
    by (simp_all add: nth_append)
  with Cons.prems(2) have "Timeline_Redo tml = (Inr c, ?tml1)"
    by (simp add: Timeline_Redo_def)
  with dm(1) have step: "RedoCommand_Execute (tml, d) = (Inr (), ?tml1, dm)"
    by (simp add: RedoCommand_Execute_def)
  from Cons.prems(1) have t1: "timeline ?tml1 = (pre @ [c]) @ cs @ post" "index ?tml1 = length (pre @ [c])"
    by simp_all
  from Cons.IH [OF t1 dm(2)] step show ?case by simp
qed

subsection \<open>Sorted results\<close>

lemma sorted_insort_by:
  assumes key: "\<And>a b. lt a b \<longleftrightarrow> key a < (key b :: 'k::linorder)"
  shows "sorted (map key xs) \<Longrightarrow> sorted (map key (insort_by lt x xs))"
  by (induction xs) (auto simp: key set_insort_by)

lemma sorted_ranges_sort:
  assumes key: "\<And>a b. lt a b \<longleftrightarrow> key a < (key b :: 'k::linorder)"
  shows "sorted (map key (ranges_sort lt xs))"
proof (induction xs)
  case Nil
  then show ?case by (simp add: ranges_sort_def)
next
  case (Cons x xs)
  from sorted_insort_by [of lt key, OF key Cons] show ?case
    by (simp add: ranges_sort_def)
qed

lemma compare3_Less [simp]: "compare3 a b = Less \<longleftrightarrow> a < b"
  by (simp add: compare3_def)

lemma compare3_Equal [simp]: "compare3 a b = Equal \<longleftrightarrow> a = b"
  by (auto simp: compare3_def)

lemma zip_compare_same_length:
  "length ps1 = length ps2 \<Longrightarrow> zip_compare ps1 ps2 = compare3 ps1 ps2"
proof (induction ps1 ps2 rule: list_induct2)
  case Nil
  then show ?case by (simp add: compare3_def)
next
  case (Cons p1 ps1 p2 ps2)
  then show ?case by (auto simp: Let_def compare3_def)
qed

lemma compare3_Cons:
  "compare3 (p1 # ps1) (p2 # ps2) =
     (if p1 < p2 then Less else if p2 < p1 then Greater else compare3 ps1 ps2)"
  by (auto simp: compare3_def)

lemma zip_compare_then_length:
  "(let res = zip_compare ps1 ps2 in
      if res \<noteq> Equal then res else compare3 (length ps1) (length ps2)) = compare3 ps1 ps2"
proof (induction ps1 arbitrary: ps2)
  case Nil
  then show ?case by (cases ps2) (simp_all add: compare3_def)
next
  case (Cons p1 ps1)
  show ?case
  proof (cases ps2)
    case Nil
    then show ?thesis by (simp add: compare3_def)
  next
    case (Cons p2 ps2')
    have len: "compare3 (length (p1 # ps1)) (length (p2 # ps2')) = compare3 (length ps1) (length ps2')"
      by (simp add: compare3_def)
    have "(let res = zip_compare (p1 # ps1) (p2 # ps2') in
             if res \<noteq> Equal then res else compare3 (length (p1 # ps1)) (length (p2 # ps2')))
          = (if p1 < p2 then Less else if p2 < p1 then Greater
             else (let res = zip_compare ps1 ps2' in
                   if res \<noteq> Equal then res else compare3 (length ps1) (length ps2')))"
      unfolding len by (simp add: Let_def compare3_def)
    also have "\<dots> = compare3 (p1 # ps1) (p2 # ps2')"
      unfolding Cons.IH compare3_Cons ..
    finally show ?thesis unfolding Cons .
  qed
qed

lemma Method_less_key:
  "Method_less m other \<longleftrightarrow>
     (Method_Name m, length (Method_Parameters m),
      map Parameter_Type (Method_Parameters m), Method_ReturnType m)
     < (Method_Name other, length (Method_Parameters other),
        map Parameter_Type (Method_Parameters other), Method_ReturnType other)"
proof (cases "length (Method_Parameters m) = length (Method_Parameters other)")
  case True
  then have "zip_compare (map Parameter_Type (Method_Parameters m))
               (map Parameter_Type (Method_Parameters other))
             = compare3 (map Parameter_Type (Method_Parameters m))
                 (map Parameter_Type (Method_Parameters other))"
    by (simp add: zip_compare_same_length)
  with True show ?thesis
    by (auto simp: Method_less_def Method_compare_def Let_def less_prod_def)
next
  case False
  then show ?thesis
    by (auto simp: Method_less_def Method_compare_def Let_def less_prod_def compare3_def)
qed

lemma MethodSignature_compare_key:
  "MethodSignature_compare s other =
     compare3 (MethodSignature_Name s, MethodSignature_ParameterTypes s)
              (MethodSignature_Name other, MethodSignature_ParameterTypes other)"
proof -
  have "MethodSignature_compare s other =
      (let res = compare3 (MethodSignature_Name s) (MethodSignature_Name other) in
       if res \<noteq> Equal then res
       else compare3 (MethodSignature_ParameterTypes s) (MethodSignature_ParameterTypes other))"
    unfolding MethodSignature_compare_def
    using zip_compare_then_length [of "MethodSignature_ParameterTypes s" "MethodSignature_ParameterTypes other"]
    by (simp add: Let_def)
  then show ?thesis
    by (auto simp: Let_def compare3_def less_prod_def)
qed

subsection \<open>A type expression inside a longer text\<close>

lemma scan_while_append:
  "start \<le> length x \<Longrightarrow> (scan_while P x start = length x \<longrightarrow> q = [] \<or> \<not> P (hd q)) \<Longrightarrow>
   scan_while P (x @ q) start = scan_while P x start"
proof (induction P x start rule: scan_while.induct)
  case (1 P x start)
  show ?case
  proof (cases "start < length x")
    case True
    show ?thesis
    proof (cases "P (x ! start)")
      case P: True
      with True have u: "scan_while P x start = scan_while P x (start + 1)"
        by (subst scan_while.simps) simp
      from True P have "scan_while P (x @ q) start = scan_while P (x @ q) (start + 1)"
        by (subst scan_while.simps) (simp add: nth_append)
      with 1(1) [OF _ _ ] True P 1(3) u show ?thesis by simp
    next
      case False
      with True have "scan_while P x start = start" by (subst scan_while.simps) simp
      moreover from True False have "scan_while P (x @ q) start = start"
        by (subst scan_while.simps) (simp add: nth_append)
      ultimately show ?thesis by simp
    qed
  next
    case False
    with 1(2) have e: "start = length x" by simp
    then have u: "scan_while P x start = start" by (subst scan_while.simps) simp
    with e 1(3) have "q = [] \<or> \<not> P (hd q)" by simp
    with e have "scan_while P (x @ q) start = start"
      by (subst scan_while.simps) (cases q; auto simp: nth_append)
    with u show ?thesis by simp
  qed
qed

lemma scan_while_prefix:
  "scan_while P (p @ y) (length p + start) = length p + scan_while P y start"
proof (induction P y start rule: scan_while.induct)
  case (1 P y start)
  show ?case
  proof (cases "start < length y \<and> P (y ! start)")
    case True
    then have "scan_while P y start = scan_while P y (start + 1)"
      by (subst scan_while.simps) simp
    moreover from True have "scan_while P (p @ y) (length p + start) = scan_while P (p @ y) (length p + (start + 1))"
      by (subst scan_while.simps) (simp add: nth_append)
    ultimately show ?thesis using 1 True by simp
  next
    case False
    then have "scan_while P y start = start" by (subst scan_while.simps) auto
    moreover from False have "scan_while P (p @ y) (length p + start) = length p + start"
      by (subst scan_while.simps) (auto simp: nth_append)
    ultimately show ?thesis by simp
  qed
qed

lemma ValidIdentifier_append:
  assumes "ValidIdentifier x start = Inr i" and "i = length x \<longrightarrow> q = [] \<or> \<not> AlNum (hd q)"
  shows "ValidIdentifier (x @ q) start = Inr i"
proof -
  from assms(1) have s: "start < length x" "Alpha (x ! start)" "i = scan_while AlNum x (start + 1)"
    by (auto simp: ValidIdentifier_def split: if_splits)
  from scan_while_append [of "start + 1" x AlNum q] s assms(2)
  have "scan_while AlNum (x @ q) (start + 1) = i" by simp
  with s show ?thesis by (simp add: ValidIdentifier_def nth_append)
qed

lemma ValidIdentifier_prefix:
  assumes "ValidIdentifier y start = Inr i"
  shows "ValidIdentifier (p @ y) (length p + start) = Inr (length p + i)"
proof -
  from assms have s: "start < length y" "Alpha (y ! start)" "i = scan_while AlNum y (start + 1)"
    by (auto simp: ValidIdentifier_def split: if_splits)
  from scan_while_prefix [of AlNum p y "start + 1"] s
  show ?thesis by (simp add: ValidIdentifier_def nth_append add.assoc)
qed

lemma stops_simps: "stops c \<Longrightarrow> \<not> AlNum c" "stops c \<Longrightarrow> c \<noteq> CHR ''*''" "stops c \<Longrightarrow> closer c = None"
  by (simp_all add: stops_def is_star_def)

lemma ValidType_TList_append:
  "\<forall>e q. ValidType x start = Inr e \<longrightarrow> (e = length x \<longrightarrow> q = [] \<or> stops (hd q)) \<longrightarrow>
     ValidType (x @ q) start = Inr e"
  "\<forall>e q. TList x2 start2 first2 c2 = Inr e \<longrightarrow> (e = length x2 \<longrightarrow> q = [] \<or> stops (hd q)) \<longrightarrow>
     TList (x2 @ q) start2 first2 c2 = Inr e"
proof (induction x start and x2 start2 first2 c2 rule: ValidType_TList_induct)
  case (ValidType x start)
  show ?case
  proof (intro allI impI)
    fix e q
    assume eq: "ValidType x start = Inr e" and q: "e = length x \<longrightarrow> q = [] \<or> stops (hd q)"
    from eq obtain i where i: "ValidIdentifier x start = Inr i"
      by (subst (asm) ValidType_unfold) (auto split: sum.splits)
    note bi = ValidIdentifier_bounds [OF i]
    show "ValidType (x @ q) start = Inr e"
    proof (cases "i = length x")
      case True
      with eq i have e: "e = length x" by (subst (asm) ValidType_unfold) simp
      with q have q': "q = [] \<or> stops (hd q)" by simp
      with True ValidIdentifier_append [OF i, of q] stops_simps(1) [of "hd q"]
      have i': "ValidIdentifier (x @ q) start = Inr i" by auto
      show ?thesis
      proof (cases q)
        case Nil
        with eq show ?thesis by simp
      next
        case (Cons ch q0)
        with q' have "stops ch" by simp
        with True Cons i' e stops_simps [of ch] show ?thesis
          by (subst ValidType_unfold) (simp add: nth_append)
      qed
    next
      case False
      with bi have il: "i < length x" by simp
      with ValidIdentifier_append [OF i, of q] have i': "ValidIdentifier (x @ q) start = Inr i"
        by simp
      from il have nth: "(x @ q) ! i = x ! i" by (simp add: nth_append)
      show ?thesis
      proof (cases "closer (x ! i)")
        case (Some c)
        with eq i False have n1: "i + 1 \<noteq> length x" and tl: "TList x (i + 1) True c = Inr e"
          by (subst (asm) ValidType_unfold; simp split: if_splits)+
        from ValidType [OF i False Some n1] tl q
        have "TList (x @ q) (i + 1) True c = Inr e" by blast
        with i' il nth Some n1 show ?thesis
          by (subst ValidType_unfold) simp
      next
        case None
        show ?thesis
        proof (cases "x ! i = CHR ''*''")
          case True
          with eq i False None have e: "e = scan_while is_star x (i + 1)"
            by (subst (asm) ValidType_unfold) simp
          from q e stops_simps(2) [of "hd q"]
          have "scan_while is_star x (i + 1) = length x \<longrightarrow> q = [] \<or> \<not> is_star (hd q)"
            by (auto simp: is_star_def)
          with scan_while_append [of "i + 1" x is_star q] il
          have "scan_while is_star (x @ q) (i + 1) = e" using e by simp
          with i' il nth None True show ?thesis
            by (subst ValidType_unfold) simp
        next
          case ns: False
          with eq i False None have "e = i"
            by (subst (asm) ValidType_unfold) simp
          with i' il nth None ns show ?thesis
            by (subst ValidType_unfold) simp
        qed
      qed
    qed
  qed
next
  case (TList x start first c)
  show ?case
  proof (intro allI impI)
    fix e q
    assume eq: "TList x start first c = Inr e" and q: "e = length x \<longrightarrow> q = [] \<or> stops (hd q)"
    from eq have inb: "start < length x"
      by (subst (asm) TList_unfold) (auto split: if_splits)
    then have nth: "(x @ q) ! start = x ! start" by (simp add: nth_append)
    show "TList (x @ q) start first c = Inr e"
    proof (cases "x ! start \<noteq> c")
      case False
      with eq inb have e: "e = scan_while is_star x (start + 1)"
        by (subst (asm) TList_unfold) simp
      from q e stops_simps(2) [of "hd q"]
      have "scan_while is_star x (start + 1) = length x \<longrightarrow> q = [] \<or> \<not> is_star (hd q)"
        by (auto simp: is_star_def)
      with scan_while_append [of "start + 1" x is_star q] inb
      have "scan_while is_star (x @ q) (start + 1) = e" using e by simp
      with inb nth False show ?thesis
        by (subst TList_unfold) simp
    next
      case True
      with eq inb have ok: "first \<or> x ! start = CHR '',''"
        by (subst (asm) TList_unfold) (auto split: if_splits)
      let ?s = "if first then start else start + 1"
      from eq inb True ok obtain b where b: "ValidType x ?s = Inr b"
        "b \<noteq> length x" "TList x b False c = Inr e"
        by (subst (asm) TList_unfold) (auto split: if_splits sum.splits)
      from TList(1) [OF inb True ok] b(1,2)
      have v: "ValidType (x @ q) ?s = Inr b" by blast
      from ValidType_bounds [OF b(1)] b(2) have bl: "b < length x" by simp
      from TList(2) [OF inb True ok b(1,2)] b(3) q
      have "TList (x @ q) b False c = Inr e" by blast
      with v bl inb nth True ok show ?thesis
        by (subst TList_unfold) (auto split: if_splits)
    qed
  qed
qed

lemma ValidType_TList_prefix:
  "\<forall>e. ValidType y start = Inr e \<longrightarrow> ValidType (p @ y) (length p + start) = Inr (length p + e)"
  "\<forall>e. TList y2 start2 first2 c2 = Inr e \<longrightarrow>
     TList (p @ y2) (length p + start2) first2 c2 = Inr (length p + e)"
proof (induction y start and y2 start2 first2 c2 rule: ValidType_TList_induct)
  case (ValidType y start)
  show ?case
  proof (intro allI impI)
    fix e
    assume eq: "ValidType y start = Inr e"
    from eq obtain i where i: "ValidIdentifier y start = Inr i"
      by (subst (asm) ValidType_unfold) (auto split: sum.splits)
    note i' = ValidIdentifier_prefix [OF i, of p]
    have nth: "(p @ y) ! (length p + i) = y ! i" by (simp add: nth_append)
    show "ValidType (p @ y) (length p + start) = Inr (length p + e)"
    proof (cases "i = length y")
      case True
      with eq i have "e = i" by (subst (asm) ValidType_unfold) simp
      with i' True show ?thesis by (subst ValidType_unfold) simp
    next
      case False
      show ?thesis
      proof (cases "closer (y ! i)")
        case (Some c)
        with eq i False have n1: "i + 1 \<noteq> length y" and tl: "TList y (i + 1) True c = Inr e"
          by (subst (asm) ValidType_unfold; simp split: if_splits)+
        from ValidType [OF i False Some n1] tl
        have "TList (p @ y) (length p + (i + 1)) True c = Inr (length p + e)" by blast
        with i' nth False Some n1 show ?thesis
          by (subst ValidType_unfold) (simp add: add.assoc)
      next
        case None
        with eq i False
        have "e = (if y ! i = CHR ''*'' then scan_while is_star y (i + 1) else i)"
          by (subst (asm) ValidType_unfold) (simp split: if_splits)
        with i' nth False None scan_while_prefix [of is_star p y "i + 1"] show ?thesis
          by (subst ValidType_unfold) (simp add: add.assoc)
      qed
    qed
  qed
next
  case (TList y start first c)
  show ?case
  proof (intro allI impI)
    fix e
    assume eq: "TList y start first c = Inr e"
    from eq have inb: "start < length y"
      by (subst (asm) TList_unfold) (auto split: if_splits)
    have nth: "(p @ y) ! (length p + start) = y ! start" by (simp add: nth_append)
    show "TList (p @ y) (length p + start) first c = Inr (length p + e)"
    proof (cases "y ! start \<noteq> c")
      case False
      with eq inb have "e = scan_while is_star y (start + 1)"
        by (subst (asm) TList_unfold) simp
      with inb nth False scan_while_prefix [of is_star p y "start + 1"] show ?thesis
        by (subst TList_unfold) (simp add: add.assoc)
    next
      case True
      with eq inb have ok: "first \<or> y ! start = CHR '',''"
        by (subst (asm) TList_unfold) (auto split: if_splits)
      let ?s = "if first then start else start + 1"
      from eq inb True ok obtain b where b: "ValidType y ?s = Inr b"
        "b \<noteq> length y" "TList y b False c = Inr e"
        by (subst (asm) TList_unfold) (auto split: if_splits sum.splits)
      from TList(1) [OF inb True ok] b(1)
      have v: "ValidType (p @ y) (length p + ?s) = Inr (length p + b)" by blast
      from TList(2) [OF inb True ok b(1,2)] b(3)
      have "TList (p @ y) (length p + b) False c = Inr (length p + e)" by blast
      with v b(2) inb nth True ok show ?thesis
        by (subst TList_unfold) (auto split: if_splits simp: add.assoc)
    qed
  qed
qed

lemma ValidType_in_context:
  assumes "consumed_in_full t" and "q = [] \<or> stops (hd q)"
  shows "ValidType (p @ t @ q) (length p) = Inr (length p + length t)"
proof -
  from assms(1) have "ValidType t 0 = Inr (length t)" by (simp add: consumed_in_full_def)
  with ValidType_TList_append(1) [of t 0] assms(2)
  have "ValidType (t @ q) 0 = Inr (length t)" by blast
  with ValidType_TList_prefix(1) [of "t @ q" 0 p] show ?thesis by simp
qed

subsection \<open>The loop over a list of type expressions\<close>

lemma is_closer_facts:
  assumes "is_closer c"
  shows "stops c" and "\<not> Alpha c" and "c \<noteq> CHR '',''"
proof -
  have "stops CHR '']'' \<and> stops CHR '')'' \<and> stops CHR ''>'' \<and>
        \<not> Alpha CHR '']'' \<and> \<not> Alpha CHR '')'' \<and> \<not> Alpha CHR ''>''"
    by code_simp
  with assms show "stops c" and "\<not> Alpha c" and "c \<noteq> CHR '',''"
    by (auto simp: is_closer_def)
qed

lemma comma_facts: "stops CHR '',''" "\<not> Alpha CHR '',''"
  by code_simp+

lemma closer_is_closer: "closer opn = Some cl \<Longrightarrow> is_closer cl \<and> \<not> AlNum opn"
proof -
  have "\<not> AlNum CHR ''['' \<and> \<not> AlNum CHR ''('' \<and> \<not> AlNum CHR ''<''"
    by code_simp
  then show "closer opn = Some cl \<Longrightarrow> is_closer cl \<and> \<not> AlNum opn"
    by (auto simp: closer_def is_closer_def split: if_splits)
qed

lemma consumed_in_full_head:
  assumes "consumed_in_full t"
  shows "t \<noteq> []" and "Alpha (hd t)"
proof -
  from assms have v: "ValidType t 0 = Inr (length t)" by (simp add: consumed_in_full_def)
  from ValidType_bounds [OF v] show "t \<noteq> []" by auto
  from v obtain i where "ValidIdentifier t 0 = Inr i"
    by (subst (asm) ValidType_unfold) (auto split: sum.splits)
  then show "Alpha (hd t)"
    by (auto simp: ValidIdentifier_def hd_conv_nth split: if_splits)
qed

lemma join_commas_Cons: "join_commas (t # ts) = t @ comma_each ts"
  by (induction ts arbitrary: t) (simp_all add: comma_each_def)

lemma join_commas_snoc: "ts \<noteq> [] \<Longrightarrow> join_commas (ts @ [t]) = join_commas ts @ CHR '','' # t"
  by (cases ts) (simp_all add: join_commas_Cons comma_each_def)

text \<open>One round of the loop at a comma, and the first round.\<close>

lemma TList_next:
  assumes "consumed_in_full t" and "q \<noteq> []" and "stops (hd q)" and "is_closer cl"
  shows "TList (p @ CHR '','' # t @ q) (length p) False cl
           = TList (p @ CHR '','' # t @ q) (length p + 1 + length t) False cl"
proof -
  let ?T = "p @ CHR '','' # t @ q"
  from assms(2,3) ValidType_in_context [OF assms(1), of q "p @ [CHR '','']"]
  have v: "ValidType ?T (length p + 1) = Inr (length p + 1 + length t)" by simp
  from assms(2) have n: "length p + 1 + length t \<noteq> length ?T" by simp
  from is_closer_facts(3) [OF assms(4)] have "?T ! length p \<noteq> cl" by simp
  with v n show ?thesis
    by (subst TList_unfold) simp
qed

lemma TList_first:
  assumes "consumed_in_full t" and "q \<noteq> []" and "stops (hd q)" and "is_closer cl"
  shows "TList (p @ t @ q) (length p) True cl = TList (p @ t @ q) (length p + length t) False cl"
proof -
  let ?T = "p @ t @ q"
  from assms(2,3) ValidType_in_context [OF assms(1), of q p]
  have v: "ValidType ?T (length p) = Inr (length p + length t)" by simp
  from assms(2) have n: "length p + length t \<noteq> length ?T" by simp
  from consumed_in_full_head [OF assms(1)] have "?T ! length p = hd t"
    by (simp add: nth_append hd_conv_nth)
  with consumed_in_full_head(2) [OF assms(1)] is_closer_facts(2) [OF assms(4)]
  have "?T ! length p \<noteq> cl" by auto
  with v n consumed_in_full_head(1) [OF assms(1)] show ?thesis
    by (subst TList_unfold) simp
qed

lemma TList_walk_commas:
  assumes "list_all consumed_in_full ts" and "q \<noteq> []" and "stops (hd q)" and "is_closer cl"
  shows "TList (p @ comma_each ts @ q) (length p) False cl
           = TList (p @ comma_each ts @ q) (length p + length (comma_each ts)) False cl"
  using assms(1)
proof (induction ts arbitrary: p)
  case Nil
  then show ?case by (simp add: comma_each_def)
next
  case (Cons t ts)
  let ?q = "comma_each ts @ q"
  have ce: "comma_each (t # ts) = CHR '','' # t @ comma_each ts"
    by (simp add: comma_each_def)
  from assms(2) have q1: "?q \<noteq> []" by simp
  have "hd ?q = CHR '','' \<or> hd ?q = hd q"
    by (cases ts) (simp_all add: comma_each_def)
  with assms(3) comma_facts(1) have q2: "stops (hd ?q)" by auto
  from Cons.prems have t: "consumed_in_full t" and ts: "list_all consumed_in_full ts"
    by simp_all
  from TList_next [OF t q1 q2 assms(4), of p]
  have "TList (p @ comma_each (t # ts) @ q) (length p) False cl
          = TList (p @ comma_each (t # ts) @ q) (length p + 1 + length t) False cl"
    by (simp add: ce)
  also from Cons.IH [OF ts, of "p @ CHR '','' # t"]
  have "\<dots> = TList (p @ comma_each (t # ts) @ q) (length p + length (comma_each (t # ts))) False cl"
    by (simp add: ce add.assoc)
  finally show ?case .
qed

lemma TList_walk:
  assumes "list_all consumed_in_full ts" and "ts \<noteq> []"
    and "q \<noteq> []" and "stops (hd q)" and "is_closer cl"
  shows "TList (p @ join_commas ts @ q) (length p) True cl
           = TList (p @ join_commas ts @ q) (length p + length (join_commas ts)) False cl"
proof -
  from assms(2) obtain t ts' where ts: "ts = t # ts'" by (cases ts) auto
  let ?q = "comma_each ts' @ q"
  from assms(3) have q1: "?q \<noteq> []" by simp
  have "hd ?q = CHR '','' \<or> hd ?q = hd q"
    by (cases ts') (simp_all add: comma_each_def)
  with assms(4) comma_facts(1) have q2: "stops (hd ?q)" by auto
  from assms(1) ts have t: "consumed_in_full t" and ts': "list_all consumed_in_full ts'"
    by simp_all
  from TList_first [OF t q1 q2 assms(5), of p]
  have "TList (p @ join_commas ts @ q) (length p) True cl
          = TList (p @ join_commas ts @ q) (length p + length t) False cl"
    by (simp add: ts join_commas_Cons)
  also from TList_walk_commas [OF ts' assms(3,4,5), of "p @ t"]
  have "\<dots> = TList (p @ join_commas ts @ q) (length p + length (join_commas ts)) False cl"
    by (simp add: ts join_commas_Cons add.assoc)
  finally show ?thesis .
qed

text \<open>What the loop does where the list ends.\<close>

lemma TList_at_closer: "TList (p @ [cl]) (length p) first cl = Inr (length p + 1)"
proof -
  have "scan_while is_star (p @ [cl]) (length p + 1) = length p + 1"
    by (subst scan_while.simps) simp
  then show ?thesis by (subst TList_unfold) simp
qed

lemma TList_at_other_closer:
  assumes "is_closer cl'" and "cl' \<noteq> cl"
  shows "TList (p @ [cl']) (length p) False cl = Inl (ExpectedComma cl' (length p))"
  using assms is_closer_facts(3) [OF assms(1)] by (subst TList_unfold) simp

lemma ValidType_at_non_alpha:
  "\<not> Alpha c \<Longrightarrow> ValidType (p @ c # q) (length p) = Inl (NonAlphabetic c (length p))"
  by (subst ValidType_unfold) (simp add: ValidIdentifier_def)

lemma ValidType_at_end: "ValidType p (length p) = Inl ExpectedIdentifierEmpty"
  by (subst ValidType_unfold) (simp add: ValidIdentifier_def)

lemma TList_at_trailing_comma:
  assumes "is_closer cl" and "\<not> Alpha c"
  shows "TList (p @ CHR '','' # c # q) (length p) False cl = Inl (NonAlphabetic c (length p + 1))"
  using ValidType_at_non_alpha [OF assms(2), of "p @ [CHR '','']" q] is_closer_facts(3) [OF assms(1)]
  by (subst TList_unfold) simp

lemma TList_at_final_comma:
  assumes "is_closer cl"
  shows "TList (p @ [CHR '','']) (length p) False cl = Inl ExpectedIdentifierEmpty"
  using ValidType_at_end [of "p @ [CHR '','']"] is_closer_facts(3) [OF assms]
  by (subst TList_unfold) simp

lemma TList_first_non_alpha:
  assumes "c \<noteq> cl" and "\<not> Alpha c"
  shows "TList (p @ c # q) (length p) True cl = Inl (NonAlphabetic c (length p))"
  using ValidType_at_non_alpha [OF assms(2), of p q] assms(1)
  by (subst TList_unfold) simp

lemma TList_first_last:
  assumes "consumed_in_full t" and "is_closer cl"
  shows "TList (p @ t) (length p) True cl = Inl UnexpectedEnd"
proof -
  from ValidType_in_context [OF assms(1), of "[]" p]
  have v: "ValidType (p @ t) (length p) = Inr (length (p @ t))" by simp
  from consumed_in_full_head [OF assms(1)] have "(p @ t) ! length p = hd t"
    by (simp add: nth_append hd_conv_nth)
  with consumed_in_full_head(2) [OF assms(1)] is_closer_facts(2) [OF assms(2)]
  have "(p @ t) ! length p \<noteq> cl" by auto
  with v consumed_in_full_head(1) [OF assms(1)] show ?thesis
    by (subst TList_unfold) simp
qed

lemma TList_next_last:
  assumes "consumed_in_full t" and "is_closer cl"
  shows "TList (p @ CHR '','' # t) (length p) False cl = Inl UnexpectedEnd"
proof -
  from ValidType_in_context [OF assms(1), of "[]" "p @ [CHR '','']"]
  have v: "ValidType (p @ CHR '','' # t) (length p + 1) = Inr (length (p @ CHR '','' # t))" by simp
  from is_closer_facts(3) [OF assms(2)] have "(p @ CHR '','' # t) ! length p \<noteq> cl" by simp
  with v show ?thesis
    by (subst TList_unfold) simp
qed

text \<open>The call on \<open>A\<close>, an opening bracket and more text enters the loop after the bracket.\<close>

lemma ValidType_enters_list:
  assumes "is_Identifier A" and "closer opn = Some cl"
  shows "ValidType (A @ opn # r) 0 =
           (if r = [] then Inl ExpectedMore else TList (A @ opn # r) (length A + 1) True cl)"
proof -
  from assms(1) have "ValidIdentifier A 0 = Inr (length A)" by (simp add: is_Identifier_iff)
  from ValidIdentifier_append [OF this, of "opn # r"] closer_is_closer [OF assms(2)]
  have "ValidIdentifier (A @ opn # r) 0 = Inr (length A)" by simp
  with assms(2) show ?thesis
    by (subst ValidType_unfold) (simp add: nth_append)
qed

subsection \<open>\<^verbatim>\<open>ValidType\<close> accepts the type expressions of the grammar\<close>

lemma bracket_pair_closer: "bracket_pair opn cl \<longleftrightarrow> closer opn = Some cl"
  by (auto simp: bracket_pair_def closer_def)

lemma scan_while_stars:
  "scan_while is_star (p @ replicate n CHR ''*'') (length p) = length p + n"
proof (induction n arbitrary: p)
  case 0
  then show ?case by (subst scan_while.simps) simp
next
  case (Suc n)
  have "scan_while is_star (p @ replicate (Suc n) CHR ''*'') (length p)
          = scan_while is_star ((p @ [CHR ''*'']) @ replicate n CHR ''*'') (length (p @ [CHR ''*'']))"
    by (subst scan_while.simps) (simp add: is_star_def replicate_app_Cons_same)
  with Suc [of "p @ [CHR ''*'']"] show ?case by simp
qed

lemma not_AlNum_star: "\<not> AlNum CHR ''*''"
  by code_simp

lemma ValidType_pointer:
  assumes "is_Identifier A"
  shows "ValidType (A @ replicate n CHR ''*'') 0 = Inr (length A + n)"
proof -
  from assms have i: "ValidIdentifier A 0 = Inr (length A)" by (simp add: is_Identifier_iff)
  show ?thesis
  proof (cases n)
    case 0
    with i show ?thesis by (subst ValidType_unfold) simp
  next
    case (Suc m)
    let ?T = "A @ replicate n CHR ''*''"
    from ValidIdentifier_append [OF i, of "replicate n CHR ''*''"] Suc not_AlNum_star
    have i': "ValidIdentifier ?T 0 = Inr (length A)" by simp
    from Suc have nth: "?T ! length A = CHR ''*''" by (simp add: nth_append)
    have "?T = (A @ [CHR ''*'']) @ replicate m CHR ''*''"
      by (simp add: Suc replicate_app_Cons_same)
    with scan_while_stars [of "A @ [CHR ''*'']" m]
    have "scan_while is_star ?T (length A + 1) = length A + n" by (simp add: Suc)
    with i' nth Suc show ?thesis
      by (subst ValidType_unfold) (simp add: closer_def)
  qed
qed

lemma TList_at_closer_stars:
  "TList (p @ cl # replicate n CHR ''*'') (length p) first cl = Inr (length p + 1 + n)"
proof -
  from scan_while_stars [of "p @ [cl]" n]
  have "scan_while is_star (p @ cl # replicate n CHR ''*'') (length p + 1) = length p + 1 + n"
    by simp
  then show ?thesis by (subst TList_unfold) simp
qed

lemma ValidType_bracketed:
  assumes A: "is_Identifier A" and cl: "closer opn = Some cl" and ts: "list_all consumed_in_full ts"
  shows "ValidType (A @ opn # join_commas ts @ cl # replicate n CHR ''*'') 0
           = Inr (length A + length (join_commas ts) + 2 + n)"
proof -
  let ?p = "A @ [opn]"
  let ?j = "join_commas ts"
  let ?q = "cl # replicate n CHR ''*''"
  from closer_is_closer [OF cl] have c: "is_closer cl" by simp
  from ValidType_enters_list [OF A cl, of "?j @ ?q"]
  have enter: "ValidType (A @ opn # ?j @ ?q) 0 = TList (?p @ ?j @ ?q) (length ?p) True cl"
    by simp
  show ?thesis
  proof (cases "ts = []")
    case True
    with enter TList_at_closer_stars [of ?p cl n True] show ?thesis by simp
  next
    case False
    from TList_walk [OF ts False _ _ c, of ?q ?p] is_closer_facts(1) [OF c]
    have "TList (?p @ ?j @ ?q) (length ?p) True cl
            = TList ((?p @ ?j) @ ?q) (length (?p @ ?j)) False cl"
      by simp
    with enter TList_at_closer_stars [of "?p @ ?j" cl n False] show ?thesis by simp
  qed
qed

lemma type_expression_consumed: "type_expression t \<Longrightarrow> consumed_in_full t"
proof (induction rule: type_expression.induct)
  case (pointer A n)
  from ValidType_pointer [OF pointer] show ?case by (simp add: consumed_in_full_def)
next
  case (bracketed A opn cl ts n)
  from bracketed(3) have "list_all consumed_in_full ts" by (simp add: list_all_iff)
  from ValidType_bracketed [OF bracketed(1) _ this, of opn cl n] bracketed(2)
  show ?case by (simp add: consumed_in_full_def bracket_pair_closer)
qed

subsection \<open>What \<^verbatim>\<open>ValidType\<close> consumes is a type expression of the grammar\<close>

lemma slice_same [simp]: "slice t a a = []"
  by (simp add: slice_def)

lemma slice_whole: "slice t 0 (length t) = t"
  by (simp add: slice_def)

lemma slice_prefix: "slice t 0 e = take e t"
  by (simp add: slice_def)

lemma slice_append: "a \<le> b \<Longrightarrow> b \<le> c \<Longrightarrow> slice t a c = slice t a b @ slice t b c"
proof -
  assume ab: "a \<le> b" and bc: "b \<le> c"
  have "take (c - a) (drop a t) = take (b - a) (drop a t) @ take (c - b) (drop (b - a) (drop a t))"
    using ab bc take_add [of "b - a" "c - b" "drop a t"] by simp
  with ab show ?thesis by (simp add: slice_def)
qed

lemma slice_Suc: "a < length t \<Longrightarrow> slice t a (Suc a) = [t ! a]"
  by (simp add: slice_def take_Suc_conv_app_nth)

lemma slice_Cons: "a < length t \<Longrightarrow> a < c \<Longrightarrow> slice t a c = t ! a # slice t (Suc a) c"
  using slice_append [of a "Suc a" c t] by (simp add: slice_Suc)

lemma scan_while_slice:
  "start \<le> length t \<Longrightarrow> list_all P (slice t start (scan_while P t start))"
proof (induction P t start rule: scan_while.induct)
  case (1 P t start)
  show ?case
  proof (cases "start < length t \<and> P (t ! start)")
    case True
    then have u: "scan_while P t start = scan_while P t (start + 1)"
      by (subst scan_while.simps) simp
    from scan_while_ge [of "start + 1" P t] have "start < scan_while P t (start + 1)" by simp
    with True slice_Cons [of start t "scan_while P t (start + 1)"] 1(1) u
    show ?thesis by simp
  next
    case False
    then have "scan_while P t start = start" by (subst scan_while.simps) auto
    then show ?thesis by simp
  qed
qed

lemma all_stars: "list_all is_star xs \<Longrightarrow> xs = replicate (length xs) CHR ''*''"
  by (induction xs) (simp_all add: is_star_def)

lemma ValidIdentifier_slice:
  assumes "ValidIdentifier t start = Inr i"
  shows "is_Identifier (slice t start i)"
proof -
  from assms have s: "start < length t" "Alpha (t ! start)" "i = scan_while AlNum t (start + 1)"
    by (auto simp: ValidIdentifier_def split: if_splits)
  from ValidIdentifier_bounds [OF assms] have "start < i" by simp
  with s(1) have "slice t start i = t ! start # slice t (Suc start) i" by (rule slice_Cons)
  with s scan_while_slice [of "start + 1" t AlNum] show ?thesis
    by (simp add: is_Identifier_def)
qed

lemma TList_bounds: "TList t start first c = Inr e \<Longrightarrow> start < e \<and> e \<le> length t"
  using ValidType_TList_bounds(2) by blast

lemma ValidType_TList_slices:
  "\<forall>e. ValidType t start = Inr e \<longrightarrow> type_expression (slice t start e)"
  "\<forall>e. TList t2 start2 first2 c2 = Inr e \<longrightarrow>
     (\<exists>ts n. (\<forall>x \<in> set ts. type_expression x) \<and>
        slice t2 start2 e
          = (if first2 then join_commas ts else comma_each ts) @ c2 # replicate n CHR ''*'')"
proof (induction t start and t2 start2 first2 c2 rule: ValidType_TList_induct)
  case (ValidType t start)
  show ?case
  proof (intro allI impI)
    fix e
    assume eq: "ValidType t start = Inr e"
    from eq obtain i where i: "ValidIdentifier t start = Inr i"
      by (subst (asm) ValidType_unfold) (auto split: sum.splits)
    note bi = ValidIdentifier_bounds [OF i]
    note A = ValidIdentifier_slice [OF i]
    note be = ValidType_bounds [OF eq]
    show "type_expression (slice t start e)"
    proof (cases "i = length t")
      case True
      with eq i have "e = i" by (subst (asm) ValidType_unfold) simp
      with type_expression.pointer [OF A, of 0] show ?thesis by simp
    next
      case False
      with bi have il: "i < length t" by simp
      show ?thesis
      proof (cases "closer (t ! i)")
        case (Some c)
        with eq i False have n1: "i + 1 \<noteq> length t" and tl: "TList t (i + 1) True c = Inr e"
          by (subst (asm) ValidType_unfold; simp split: if_splits)+
        from ValidType [OF i False Some n1] tl
        obtain ts n where ts: "\<forall>x \<in> set ts. type_expression x"
          and sl: "slice t (i + 1) e = join_commas ts @ c # replicate n CHR ''*''"
          by auto
        from TList_bounds [OF tl] have ie: "i + 1 < e" by simp
        from bi ie slice_append [of start i e t] il slice_Cons [of i t e]
        have "slice t start e = slice t start i @ t ! i # slice t (i + 1) e" by simp
        with sl type_expression.bracketed [OF A _ ts, of "t ! i" c n] Some
        show ?thesis by (simp add: bracket_pair_closer)
      next
        case None
        show ?thesis
        proof (cases "t ! i = CHR ''*''")
          case True
          with eq i False None have e: "e = scan_while is_star t (i + 1)"
            by (subst (asm) ValidType_unfold) simp
          from scan_while_slice [of "i + 1" t is_star] il e
          have "list_all is_star (slice t (i + 1) e)" by simp
          with True have "list_all is_star (t ! i # slice t (i + 1) e)" by (simp add: is_star_def)
          moreover from e scan_while_ge [of "i + 1" is_star t] have ie: "i < e" by simp
          ultimately have "list_all is_star (slice t i e)"
            using slice_Cons [OF il ie] by simp
          from all_stars [OF this] bi ie slice_append [of start i e t]
          have "slice t start e = slice t start i @ replicate (length (slice t i e)) CHR ''*''"
            by simp
          with type_expression.pointer [OF A] show ?thesis by simp
        next
          case ns: False
          with eq i False None have "e = i"
            by (subst (asm) ValidType_unfold) simp
          with type_expression.pointer [OF A, of 0] show ?thesis by simp
        qed
      qed
    qed
  qed
next
  case (TList t start first c)
  show ?case
  proof (intro allI impI)
    fix e
    assume eq: "TList t start first c = Inr e"
    note be = TList_bounds [OF eq]
    from eq have inb: "start < length t"
      by (subst (asm) TList_unfold) (auto split: if_splits)
    show "\<exists>ts n. (\<forall>x \<in> set ts. type_expression x) \<and>
            slice t start e = (if first then join_commas ts else comma_each ts) @ c # replicate n CHR ''*''"
    proof (cases "t ! start \<noteq> c")
      case False
      with eq inb have e: "e = scan_while is_star t (start + 1)"
        by (subst (asm) TList_unfold) simp
      from scan_while_slice [of "start + 1" t is_star] inb e
      have "list_all is_star (slice t (start + 1) e)" by simp
      from all_stars [OF this] slice_Cons [OF inb, of e] be False
      have "slice t start e = c # replicate (length (slice t (start + 1) e)) CHR ''*''"
        by simp
      then have "(\<forall>x \<in> set []. type_expression x) \<and>
          slice t start e = (if first then join_commas [] else comma_each [])
             @ c # replicate (length (slice t (start + 1) e)) CHR ''*''"
        by (simp add: comma_each_def)
      then show ?thesis by blast
    next
      case True
      with eq inb have ok: "first \<or> t ! start = CHR '',''"
        by (subst (asm) TList_unfold) (auto split: if_splits)
      let ?s = "if first then start else start + 1"
      from eq inb True ok obtain b where b: "ValidType t ?s = Inr b"
        "b \<noteq> length t" "TList t b False c = Inr e"
        by (subst (asm) TList_unfold) (auto split: if_splits sum.splits)
      from TList(1) [OF inb True ok] b(1)
      have x: "type_expression (slice t ?s b)" by blast
      from TList(2) [OF inb True ok b(1,2)] b(3)
      obtain ts n where ts: "\<forall>x \<in> set ts. type_expression x"
        and sl: "slice t b e = comma_each ts @ c # replicate n CHR ''*''"
        by auto
      note bb = ValidType_bounds [OF b(1)]
      note bt = TList_bounds [OF b(3)]
      have all: "\<forall>x \<in> set (slice t ?s b # ts). type_expression x"
        using x ts by simp
      show ?thesis
      proof (cases first)
        case first: True
        with bb bt slice_append [of start b e t]
        have "slice t start e = slice t start b @ slice t b e" by simp
        with sl first have "slice t start e
            = (if first then join_commas (slice t ?s b # ts) else comma_each (slice t ?s b # ts))
              @ c # replicate n CHR ''*''"
          by (simp add: join_commas_Cons)
        with all show ?thesis by blast
      next
        case nf: False
        with ok have comma: "t ! start = CHR '',''" by simp
        from nf bb have sb: "start + 1 < b" by simp
        with bt slice_append [of "start + 1" b e t]
        have "slice t (start + 1) e = slice t (start + 1) b @ slice t b e" by simp
        with slice_Cons [OF inb, of e] be comma
        have "slice t start e = CHR '','' # slice t (start + 1) b @ slice t b e" by simp
        with sl nf have "slice t start e
            = (if first then join_commas (slice t ?s b # ts) else comma_each (slice t ?s b # ts))
              @ c # replicate n CHR ''*''"
          by (simp add: comma_each_def)
        with all show ?thesis by blast
      qed
    qed
  qed
qed

lemma ValidType_consumes_type_expression:
  "ValidType t 0 = Inr e \<Longrightarrow> type_expression (take e t)"
  using ValidType_TList_slices(1) [of t 0] by (simp add: slice_prefix)

lemma type_expression_iff_consumed: "type_expression t \<longleftrightarrow> consumed_in_full t"
proof
  assume "type_expression t"
  then show "consumed_in_full t" by (rule type_expression_consumed)
next
  assume "consumed_in_full t"
  then have "ValidType t 0 = Inr (length t)" by (simp add: consumed_in_full_def)
  from ValidType_consumes_type_expression [OF this] show "type_expression t" by simp
qed

lemma no_prefix_rejected:
  "\<forall>k. \<not> type_expression (take k t) \<Longrightarrow> \<not> has_value (ValidType t 0)"
  using ValidType_consumes_type_expression [of t] by (auto simp: has_value_iff)

lemma type_expression_head: "type_expression t \<Longrightarrow> t \<noteq> [] \<and> Alpha (hd t)"
  using consumed_in_full_head [of t] type_expression_consumed [of t] by simp

subsection \<open>Bracketed lists of texts that \<^verbatim>\<open>ValidType\<close> consumes in full\<close>

text \<open>
  The loop of \<^verbatim>\<open>ValidType\<close> on \<open>A opn t1,...,tn\<close> followed by a closer, by a comma or by
  nothing, for texts \<open>ti\<close> that \<^verbatim>\<open>ValidType\<close> consumes in full.
\<close>

lemma ValidType_list_of_consumed:
  assumes A: "is_Identifier A" and ts: "list_all consumed_in_full ts" and cl: "closer opn = Some cl"
  shows "ValidType (A @ opn # join_commas ts @ [cl]) 0
           = Inr (length A + length (join_commas ts) + 2) \<and>
         \<not> has_value (ValidType (A @ opn # join_commas ts) 0) \<and>
         (\<forall>cl'. is_closer cl' \<and> cl' \<noteq> cl \<longrightarrow>
            \<not> has_value (ValidType (A @ opn # join_commas ts @ [cl']) 0)) \<and>
         \<not> has_value (ValidType (A @ opn # join_commas ts @ [CHR '','', cl]) 0) \<and>
         \<not> has_value (ValidType (A @ opn # join_commas ts @ [CHR '','']) 0)"
proof -
  let ?p = "A @ [opn]"
  let ?j = "join_commas ts"
  from closer_is_closer [OF cl] have c: "is_closer cl" by simp
  have enter: "ValidType (A @ opn # ?j @ q) 0 = TList (?p @ ?j @ q) (length ?p) True cl"
    if "?j @ q \<noteq> []" for q
    using that ValidType_enters_list [OF A cl, of "?j @ q"] by auto
  have walk: "TList (?p @ ?j @ q) (length ?p) True cl
                = TList ((?p @ ?j) @ q) (length (?p @ ?j)) False cl"
    if "ts \<noteq> []" "q \<noteq> []" "stops (hd q)" for q
    using TList_walk [OF ts that c, of ?p] by simp
  have accept: "ValidType (A @ opn # ?j @ [cl]) 0 = Inr (length A + length ?j + 2)"
  proof (cases "ts = []")
    case True
    with enter [of "[cl]"] TList_at_closer [of ?p cl True] show ?thesis by simp
  next
    case False
    from walk [OF False, of "[cl]"] is_closer_facts(1) [OF c] enter [of "[cl]"]
      TList_at_closer [of "?p @ ?j" cl False]
    show ?thesis by simp
  qed
  have missing: "\<not> has_value (ValidType (A @ opn # ?j) 0)"
  proof (cases ts rule: rev_cases)
    case Nil
    with ValidType_enters_list [OF A cl, of "[]"] show ?thesis by simp
  next
    case (snoc ts0 t)
    with ts have t: "consumed_in_full t" and ts0: "list_all consumed_in_full ts0" by simp_all
    show ?thesis
    proof (cases "ts0 = []")
      case True
      with snoc have j: "?j = t" by simp
      from consumed_in_full_head(1) [OF t] j enter [of "[]"] TList_first_last [OF t c, of ?p]
      show ?thesis by simp
    next
      case False
      with snoc have j: "?j = join_commas ts0 @ CHR '','' # t" by (simp add: join_commas_snoc)
      from TList_walk [OF ts0 False _ _ c, of "CHR '','' # t" ?p] comma_facts(1)
      have "TList (?p @ ?j) (length ?p) True cl
              = TList ((?p @ join_commas ts0) @ CHR '','' # t) (length (?p @ join_commas ts0)) False cl"
        by (simp add: j)
      with TList_next_last [OF t c, of "?p @ join_commas ts0"] enter [of "[]"] j
      show ?thesis by simp
    qed
  qed
  have mismatch: "\<not> has_value (ValidType (A @ opn # ?j @ [cl']) 0)"
    if c': "is_closer cl'" "cl' \<noteq> cl" for cl'
  proof (cases "ts = []")
    case True
    with enter [of "[cl']"] TList_first_non_alpha [OF c'(2) is_closer_facts(2) [OF c'(1)], of ?p "[]"]
    show ?thesis by simp
  next
    case False
    from walk [OF False, of "[cl']"] is_closer_facts(1) [OF c'(1)] enter [of "[cl']"]
      TList_at_other_closer [OF c', of "?p @ ?j"]
    show ?thesis by simp
  qed
  have trailing: "\<not> has_value (ValidType (A @ opn # ?j @ [CHR '','', cl]) 0)"
  proof (cases "ts = []")
    case True
    with enter [of "[CHR '','', cl]"]
      TList_first_non_alpha [OF _ comma_facts(2), of cl ?p "[cl]"] is_closer_facts(3) [OF c]
    show ?thesis by simp
  next
    case False
    from walk [OF False, of "[CHR '','', cl]"] comma_facts(1) enter [of "[CHR '','', cl]"]
      TList_at_trailing_comma [OF c is_closer_facts(2) [OF c], of "?p @ ?j" "[]"]
    show ?thesis by simp
  qed
  have trailing_end: "\<not> has_value (ValidType (A @ opn # ?j @ [CHR '','']) 0)"
  proof (cases "ts = []")
    case True
    with enter [of "[CHR '','']"]
      TList_first_non_alpha [OF _ comma_facts(2), of cl ?p "[]"] is_closer_facts(3) [OF c]
    show ?thesis by simp
  next
    case False
    from walk [OF False, of "[CHR '','']"] comma_facts(1) enter [of "[CHR '','']"]
      TList_at_final_comma [OF c, of "?p @ ?j"]
    show ?thesis by simp
  qed
  from accept missing mismatch trailing trailing_end show ?thesis by blast
qed

subsection \<open>The mutators of the methods of a class keep them sorted\<close>

lemma methods_sorted_ranges_sort:
  "methods_sorted (c\<lparr>Class_Methods := ranges_sort Method_less ms\<rparr>)"
proof -
  let ?key = "\<lambda>m. (Method_Name m, length (Method_Parameters m),
       map Parameter_Type (Method_Parameters m), Method_ReturnType m)"
  from sorted_ranges_sort [of Method_less ?key ms] Method_less_key
  have "sorted (map ?key (ranges_sort Method_less ms))" by blast
  then have "sorted_wrt (\<lambda>a b. ?key a \<le> ?key b) (ranges_sort Method_less ms)"
    by (simp add: sorted_wrt_map)
  moreover have "?key a \<le> ?key b \<longleftrightarrow> \<not> Method_less b a" for a b
    unfolding Method_less_key by (rule not_less [symmetric])
  ultimately show ?thesis by (simp add: methods_sorted_def)
qed

lemma sorted_wrt_erase: "sorted_wrt P xs \<Longrightarrow> sorted_wrt P (erase i xs)"
proof -
  assume s: "sorted_wrt P xs"
  from s have "sorted_wrt P (take i xs @ drop i xs)" by simp
  then have a: "sorted_wrt P (take i xs)" "sorted_wrt P (drop i xs)"
    "\<forall>x \<in> set (take i xs). \<forall>y \<in> set (drop i xs). P x y"
    unfolding sorted_wrt_append by blast+
  have d: "drop (i + 1) xs = tl (drop i xs)" by (simp add: drop_Suc tl_drop)
  from a(2) have "sorted_wrt P (tl (drop i xs))" by (cases "drop i xs") simp_all
  moreover have "set (tl (drop i xs)) \<subseteq> set (drop i xs)" by (cases "drop i xs") auto
  ultimately show ?thesis using a(1,3) d by (auto simp: erase_def sorted_wrt_append)
qed

lemma Class_GetMethodFromSignature_bound:
  "Class_GetMethodFromSignature c sig = Inr m \<Longrightarrow> m < length (Class_Methods c)"
  by (cases "Class_Check_Signature sig")
     (auto simp: Class_GetMethodFromSignature_def split: option.splits dest: ranges_find_if_Some)

lemma methods_sorted_sort_after:
  assumes "methods_sorted c" and "\<And>e. fst r = Inl e \<Longrightarrow> snd r = Class_Methods c ! m"
  shows "methods_sorted (snd (sort_after c m r))"
proof (cases r)
  case (Pair res mt)
  show ?thesis
  proof (cases res)
    case (Inl e)
    with Pair assms(2) [of e] have "mt = Class_Methods c ! m" by simp
    with Pair Inl assms(1) show ?thesis by (simp add: sort_after_def methods_sorted_def)
  next
    case (Inr u)
    with Pair methods_sorted_ranges_sort show ?thesis by (simp add: sort_after_def)
  qed
qed

lemma Method_mutators_fail:
  "fst (Method_Rename mt name) = Inl e \<Longrightarrow> snd (Method_Rename mt name) = mt"
  "fst (Method_ChangeParameters mt ps) = Inl e \<Longrightarrow> snd (Method_ChangeParameters mt ps) = mt"
  "fst (Method_AddParameter mt pn pt) = Inl e \<Longrightarrow> snd (Method_AddParameter mt pn pt) = mt"
  by (auto simp: Method_Rename_def Method_ChangeParameters_def Method_AddParameter_def
           split: sum.splits if_splits)

lemma Parameter_ChangeType_fails:
  "fst (Parameter_ChangeType p t) = Inl e \<Longrightarrow> snd (Parameter_ChangeType p t) = p"
  by (auto simp: Parameter_ChangeType_def split: sum.splits)


lemma methods_sorted_AddMethod:
  "methods_sorted c \<Longrightarrow> methods_sorted (snd (Class_AddMethod c name return_type parameters))"
  using methods_sorted_ranges_sort
  by (cases "Method_From name return_type parameters") (simp_all add: Class_AddMethod_def)

lemma methods_sorted_DeleteMethod:
  "methods_sorted c \<Longrightarrow> methods_sorted (snd (Class_DeleteMethod c sig))"
  using sorted_wrt_erase [of "\<lambda>a b. \<not> Method_less b a" "Class_Methods c"]
  by (cases "Class_GetMethodFromSignature c sig")
     (simp_all add: Class_DeleteMethod_def methods_sorted_def)

lemma methods_sorted_RenameMethod:
  "methods_sorted c \<Longrightarrow> methods_sorted (snd (Class_RenameMethod c sig new_name))"
  using methods_sorted_sort_after [OF _ Method_mutators_fail(1)]
  by (cases "Class_GetMethodFromSignature c sig") (simp_all add: Class_RenameMethod_def)

lemma methods_sorted_ChangeParameters:
  "methods_sorted c \<Longrightarrow> methods_sorted (snd (Class_ChangeParameters c sig parameters))"
  using methods_sorted_sort_after [OF _ Method_mutators_fail(2)]
  by (cases "Class_GetMethodFromSignature c sig"; cases "Class_Check_Parameters parameters")
     (simp_all add: Class_ChangeParameters_def)

lemma methods_sorted_AddParameter:
  "methods_sorted c \<Longrightarrow> methods_sorted (snd (Class_AddParameter c sig pn pt))"
  using methods_sorted_sort_after [OF _ Method_mutators_fail(3)]
  by (cases "Class_GetMethodFromSignature c sig") (simp_all add: Class_AddParameter_def)

lemma methods_sorted_DeleteParameter:
  "methods_sorted c \<Longrightarrow> methods_sorted (snd (Class_DeleteParameter c sig pn))"
proof (cases "Class_GetMethodFromSignature c sig")
  case (Inl e)
  assume "methods_sorted c"
  with Inl show ?thesis by (simp add: Class_DeleteParameter_def)
next
  case (Inr m)
  assume s: "methods_sorted c"
  show ?thesis
  proof (cases "Method_GetParameter (Class_Methods c ! m) pn")
    case (Inl e)
    with Inr s show ?thesis by (simp add: Class_DeleteParameter_def)
  next
    case p: (Inr p)
    from methods_sorted_sort_after [OF s, of "Method_RemoveParameter (Class_Methods c ! m) p" m]
    have "methods_sorted (snd (sort_after c m (Method_RemoveParameter (Class_Methods c ! m) p)))"
      by (simp add: Method_RemoveParameter_def)
    with Inr p s show ?thesis by (simp add: Class_DeleteParameter_def)
  qed
qed

lemma methods_sorted_DeleteParameters:
  "methods_sorted c \<Longrightarrow> methods_sorted (snd (Class_DeleteParameters c sig))"
proof (cases "Class_GetMethodFromSignature c sig")
  case (Inl e)
  assume "methods_sorted c"
  with Inl show ?thesis by (simp add: Class_DeleteParameters_def)
next
  case (Inr m)
  assume s: "methods_sorted c"
  from methods_sorted_sort_after [OF s, of "Method_ClearParameters (Class_Methods c ! m)" m]
  have "methods_sorted (snd (sort_after c m (Method_ClearParameters (Class_Methods c ! m))))"
    by (simp add: Method_ClearParameters_def)
  with Inr s show ?thesis by (simp add: Class_DeleteParameters_def)
qed

lemma methods_sorted_ChangeParameterType:
  "methods_sorted c \<Longrightarrow> methods_sorted (snd (Class_ChangeParameterType c sig pn new_type))"
proof (cases "Class_GetMethodFromSignature c sig")
  case (Inl e)
  assume "methods_sorted c"
  with Inl show ?thesis by (simp add: Class_ChangeParameterType_def)
next
  case (Inr m)
  assume s: "methods_sorted c"
  show ?thesis
  proof (cases "Method_GetParameter (Class_Methods c ! m) pn")
    case (Inl e)
    with Inr s show ?thesis by (simp add: Class_ChangeParameterType_def)
  next
    case p: (Inr p)
    let ?mt = "Class_Methods c ! m"
    let ?r = "let method = ?mt in
       case Parameter_ChangeType (Method_Parameters method ! p) new_type of
         (r, parameter) \<Rightarrow>
           (r, method\<lparr>Method_Parameters := (Method_Parameters method)[p := parameter]\<rparr>)"
    have fl: "snd ?r = ?mt" if "fst ?r = Inl e" for e
      using that Parameter_ChangeType_fails [of "Method_Parameters ?mt ! p" new_type e]
      by (cases "Parameter_ChangeType (Method_Parameters ?mt ! p) new_type") (simp add: Let_def)
    have "methods_sorted (snd (sort_after c m ?r))"
      by (rule methods_sorted_sort_after [OF s]) (rule fl)
    with Inr p s show ?thesis by (simp add: Class_ChangeParameterType_def)
  qed
qed

section \<open>The claims\<close>

subsection \<open>Claim C1: a failed load does not leave the diagram as it was\<close>

text \<open>
  Claim C1 says that \<open>Load\<close> of a document that violates a model invariant returns an error
  and leaves the diagram exactly as it was. On the diagram with the classes \<open>a\<close>, \<open>b\<close> and
  the relationship from \<open>a\<close> to \<open>b\<close>, \<open>Load\<close> of a document with two classes named \<open>a\<close>
  returns the error, and the diagram then holds the two classes named \<open>a\<close> and no
  relationship; \<open>Load\<close> of a document whose relationship names a class it does not have
  returns the error, and the diagram then holds the dangling relationship. \<open>Load\<close> of a
  file that cannot be read returns an error and changes nothing.
\<close>

theorem Load_failure_overwrites_diagram:
  "Load example_files diagram_ab ''duplicate.json''
     = (Inl (LoadError (Duplicate ''class'')),
        \<lparr>classes = [class_named ''a'', class_named ''a''], relationships = []\<rparr>) \<and>
   snd (Load example_files diagram_ab ''duplicate.json'') \<noteq> diagram_ab \<and>
   Load example_files diagram_ab ''dangling.json''
     = (Inl (LoadError NonexistentRelationshipClasses),
        \<lparr>classes = [class_named ''a''], relationships = [relationship_ab]\<rparr>) \<and>
   snd (Load example_files diagram_ab ''dangling.json'') \<noteq> diagram_ab \<and>
   Load example_files diagram_ab ''missing.json''
     = (Inl (LoadError (CannotReadFile ''missing.json'')), diagram_ab)"
  by code_simp

subsection \<open>Claim C2: undoing everything and redoing everything\<close>

text \<open>
  Claim C2. Start from any diagram and any timeline whose cursor is within its history,
  and let the command loop commit the trackable commands \<open>c1..cn\<close> in order, each with
  success. Then \<open>n\<close> times \<open>undo\<close> succeed and bring back the diagram the run started from,
  and \<open>n\<close> times \<open>redo\<close> after that succeed and bring back the diagram (and the timeline)
  the run had reached. The theorem holds for every \<open>Execute\<close>, so for each of the trackable
  commands of commands.hpp; a redo runs \<open>Execute\<close> on the diagram the commit ran it on.
\<close>

theorem undo_all_then_redo_all:
  assumes "\<forall>cmd \<in> set cmds. Trackable cmd"
    and "index tml \<le> length (timeline tml)"
    and "CLI_steps cmds (tml, d) = Some (tml', d')"
  shows "\<exists>tml_u. repeat_ok UndoCommand_Execute (length cmds) (tml', d') = Some (tml_u, d) \<and>
                 repeat_ok RedoCommand_Execute (length cmds) (tml_u, d) = Some (tml', d')"
proof -
  from CLI_steps_recorded [OF assms]
  obtain cs post where cs: "timeline tml' = take (index tml) (timeline tml) @ cs @ post"
    "index tml' = index tml + length cs" "length cs = length cmds" "recorded d cs d'"
    by blast
  let ?pre = "take (index tml) (timeline tml)"
  from assms(2) have lp: "length ?pre = index tml" by simp
  let ?u = "tml'\<lparr>index := length ?pre\<rparr>"
  note t = cs(1)
  from cs(2) lp have i: "index tml' = length ?pre + length cs" by simp
  from undo_recorded [OF t i cs(4)]
  have u: "repeat_ok UndoCommand_Execute (length cmds) (tml', d') = Some (?u, d)"
    by (simp add: cs(3))
  from t have tu: "timeline ?u = ?pre @ cs @ post" "index ?u = length ?pre" by simp_all
  from redo_recorded [OF tu cs(4)] i
  have "repeat_ok RedoCommand_Execute (length cmds) (?u, d) = Some (tml', d')"
    by (simp add: cs(3))
  with u show ?thesis by blast
qed

theorem undo_all_then_redo_all_witness:
  "list_all Trackable example_commands \<and>
   index Timeline_default \<le> length (timeline Timeline_default) \<and>
   (\<exists>tml'. CLI_steps example_commands (Timeline_default, Diagram_default) = Some (tml', diagram_ab) \<and>
      (\<exists>tml_u. repeat_ok UndoCommand_Execute (length example_commands) (tml', diagram_ab)
                 = Some (tml_u, Diagram_default) \<and>
               repeat_ok RedoCommand_Execute (length example_commands) (tml_u, Diagram_default)
                 = Some (tml', diagram_ab)))"
proof -
  have tr: "\<forall>cmd \<in> set example_commands. Trackable cmd"
    by (simp add: example_commands_def AddClassCommand_def AddRelationshipCommand_def)
  have inv: "index Timeline_default \<le> length (timeline Timeline_default)"
    by (simp add: Timeline_default_def)
  have "map_option snd (CLI_steps example_commands (Timeline_default, Diagram_default)) = Some diagram_ab"
    by code_simp
  then obtain tml' where run: "CLI_steps example_commands (Timeline_default, Diagram_default) = Some (tml', diagram_ab)"
    by (cases "CLI_steps example_commands (Timeline_default, Diagram_default)") auto
  from tr have "list_all Trackable example_commands" by (simp add: list_all_iff)
  with undo_all_then_redo_all [OF tr inv run] inv run show ?thesis by blast
qed

subsection \<open>Claim C3: which names \<open>AddClass\<close> rejects\<close>

text \<open>
  Claim C3 says that \<open>AddClass\<close> fails for every name that is not an identifier in full, such
  as the type expressions \<open>A<int>\<close> and \<open>x*\<close>. On the empty diagram \<open>AddClass\<close> accepts both
  and adds a class of that name: neither is an identifier.
\<close>

theorem AddClass_accepts_type_expressions:
  "\<not> is_Identifier ''A<int>'' \<and>
   AddClass Diagram_default ''A<int>'' = (Inr (), \<lparr>classes = [class_named ''A<int>''], relationships = []\<rparr>) \<and>
   \<not> is_Identifier ''x*'' \<and>
   AddClass Diagram_default ''x*'' = (Inr (), \<lparr>classes = [class_named ''x*''], relationships = []\<rparr>)"
  by code_simp

text \<open>
  Claim C3, amended. \<open>AddClass\<close> validates the name with \<^verbatim>\<open>ValidType\<close>, that is as a type
  expression and not as an identifier. \<open>AddClass(name)\<close> returns an error and leaves the
  diagram as it was whenever \<open>ValidType(name, 0)\<close> fails, which it does for every name that
  is empty or does not begin with a letter or an underscore, and whenever a class of that
  name is already in the diagram. It succeeds and appends a class of that name whenever the
  name is a type expression of the grammar (\<open>type_expression\<close>) and no class of the diagram
  has it.
\<close>

theorem AddClass_validates_type_expression:
  "(\<not> has_value (ValidType name 0) \<or> name \<in> set (GetClassNames d) \<longrightarrow>
      (\<exists>e. fst (AddClass d name) = Inl e) \<and> snd (AddClass d name) = d) \<and>
   (name = [] \<or> \<not> Alpha (hd name) \<longrightarrow> \<not> has_value (ValidType name 0)) \<and>
   (type_expression name \<and> name \<notin> set (GetClassNames d) \<longrightarrow>
      AddClass d name = (Inr (), d\<lparr>classes := classes d @ [class_named name]\<rparr>))"
proof -
  have bad: "(\<exists>e. fst (AddClass d name) = Inl e) \<and> snd (AddClass d name) = d"
    if "\<not> has_value (ValidType name 0) \<or> name \<in> set (GetClassNames d)"
  proof (cases "has_value (GetClass d name)")
    case True
    then show ?thesis by (simp add: AddClass_def)
  next
    case False
    with that GetClass_has_value [of d name] have nv: "\<not> has_value (ValidType name 0)"
      by auto
    from nv Check_fails [of ValidType name "''class name''"] obtain e where
      "Check ValidType name ''class name'' = Inl e" by blast
    with False show ?thesis by (simp add: AddClass_def Class_From_def)
  qed
  have head: "\<not> has_value (ValidType name 0)" if "name = [] \<or> \<not> Alpha (hd name)"
  proof (cases name)
    case Nil
    then show ?thesis by (subst ValidType_unfold) (simp add: ValidIdentifier_def)
  next
    case (Cons c cs)
    with that ValidType_at_non_alpha [of c "[]" cs] show ?thesis by simp
  qed
  have ok: "AddClass d name = (Inr (), d\<lparr>classes := classes d @ [class_named name]\<rparr>)"
    if te: "type_expression name" and new: "name \<notin> set (GetClassNames d)"
  proof -
    from type_expression_consumed [OF te] have "has_value (ValidType name 0)"
      by (simp add: consumed_in_full_def)
    with new GetClass_has_value [of d name] show ?thesis
      by (simp add: AddClass_def Class_From_def Check_ok class_named_def)
  qed
  from bad head ok show ?thesis by blast
qed

theorem AddClass_validates_type_expression_witness:
  "''a'' \<in> set (GetClassNames diagram_ab) \<and>
   (\<exists>e. fst (AddClass diagram_ab ''a'') = Inl e) \<and> snd (AddClass diagram_ab ''a'') = diagram_ab \<and>
   \<not> Alpha (hd ''1a'') \<and> \<not> has_value (ValidType ''1a'' 0) \<and>
   (\<exists>e. fst (AddClass diagram_ab ''1a'') = Inl e) \<and> snd (AddClass diagram_ab ''1a'') = diagram_ab \<and>
   \<not> has_value (ValidType '''' 0) \<and>
   (\<exists>e. fst (AddClass diagram_ab '''') = Inl e) \<and> snd (AddClass diagram_ab '''') = diagram_ab \<and>
   type_expression ''A<int>'' \<and> ''A<int>'' \<notin> set (GetClassNames diagram_ab) \<and>
   AddClass diagram_ab ''A<int>''
     = (Inr (), diagram_ab\<lparr>classes := classes diagram_ab @ [class_named ''A<int>'']\<rparr>) \<and>
   type_expression ''c_1'' \<and> ''c_1'' \<notin> set (GetClassNames diagram_ab) \<and>
   AddClass diagram_ab ''c_1''
     = (Inr (), diagram_ab\<lparr>classes := classes diagram_ab @ [class_named ''c_1'']\<rparr>)"
proof -
  have i: "is_Identifier ''A''" "is_Identifier ''int''" "is_Identifier ''c_1''"
    and na: "\<not> Alpha (hd ''1a'')"
    by code_simp+
  have t0: "type_expression ''int''"
    using type_expression.pointer [OF i(2), of 0] by simp
  have t1: "type_expression ''A<int>''"
    using type_expression.bracketed [OF i(1), of "CHR ''<''" "CHR ''>''" "[''int'']" 0] t0
    by (simp add: bracket_pair_def)
  have t2: "type_expression ''c_1''"
    using type_expression.pointer [OF i(3), of 0] by simp
  have f: "''a'' \<in> set (GetClassNames diagram_ab)"
    "''A<int>'' \<notin> set (GetClassNames diagram_ab)" "''c_1'' \<notin> set (GetClassNames diagram_ab)"
    by (simp_all add: GetClassNames_def diagram_ab_def class_named_def Class_default_def)
  from AddClass_validates_type_expression [of "''a''" diagram_ab]
    AddClass_validates_type_expression [of "''1a''" diagram_ab]
    AddClass_validates_type_expression [of "''''" diagram_ab]
    AddClass_validates_type_expression [of "''A<int>''" diagram_ab]
    AddClass_validates_type_expression [of "''c_1''" diagram_ab] na t1 t2 f
  show ?thesis by simp
qed

subsection \<open>Claim C4: referential integrity on deletion and on load\<close>

text \<open>
  Claim C4. \<open>DeleteClass(c)\<close> succeeds for a class that is in the diagram, and after a
  successful \<open>DeleteClass(c)\<close> no relationship has \<open>c\<close> as its source or destination: the
  relationships left are exactly the earlier ones that do not mention \<open>c\<close>. Decoding a
  document in which a relationship names, as source or destination, a class that is not
  among the document's classes fails, and so does \<open>Load\<close> of a file holding it.
\<close>

theorem referential_integrity:
  "(has_value (ValidType c 0) \<and> c \<in> set (GetClassNames d) \<longrightarrow> fst (DeleteClass d c) = Inr ()) \<and>
   (fst (DeleteClass d c) = Inr () \<longrightarrow>
      (\<forall>r \<in> set (relationships (snd (DeleteClass d c))).
         Relationship_Source r \<noteq> c \<and> Relationship_Destination r \<noteq> c) \<and>
      relationships (snd (DeleteClass d c)) =
        filter (\<lambda>r. Relationship_Source r \<noteq> c \<and> Relationship_Destination r \<noteq> c) (relationships d)) \<and>
   ((\<exists>r \<in> set (j_relationships json).
        jr_source r \<notin> set (map jc_name (j_classes json)) \<or>
        jr_destination r \<notin> set (map jc_name (j_classes json))) \<longrightarrow>
      (\<exists>e. fst (from_json_Diagram (Persisted json) d) = Inl e) \<and>
      (files file_name = Some (Persisted json) \<longrightarrow> (\<exists>e. fst (Load files d file_name) = Inl e)))"
proof -
  have del_ok: "fst (DeleteClass d c) = Inr ()"
    if "has_value (ValidType c 0) \<and> c \<in> set (GetClassNames d)"
    using that GetClass_has_value [of d c]
    by (cases "GetClass d c") (simp_all add: DeleteClass_def)
  have del: "(\<forall>r \<in> set (relationships (snd (DeleteClass d c))).
         Relationship_Source r \<noteq> c \<and> Relationship_Destination r \<noteq> c) \<and>
      relationships (snd (DeleteClass d c)) =
        filter (\<lambda>r. Relationship_Source r \<noteq> c \<and> Relationship_Destination r \<noteq> c) (relationships d)"
    if "fst (DeleteClass d c) = Inr ()"
    using that by (cases "GetClass d c") (simp_all add: DeleteClass_def)
  have load: "(\<exists>e. fst (from_json_Diagram (Persisted json) d) = Inl e) \<and>
      (files file_name = Some (Persisted json) \<longrightarrow> (\<exists>e. fst (Load files d file_name) = Inl e))"
    if "\<exists>r \<in> set (j_relationships json).
        jr_source r \<notin> set (map jc_name (j_classes json)) \<or>
        jr_destination r \<notin> set (map jc_name (j_classes json))"
  proof -
    from that from_json_Diagram_rejects_dangling [of _ json d]
    obtain e where e: "fst (from_json_Diagram (Persisted json) d) = Inl e" by blast
    then have "files file_name = Some (Persisted json) \<Longrightarrow> \<exists>e. fst (Load files d file_name) = Inl e"
      by (cases "from_json_Diagram (Persisted json) d") (simp add: Load_def)
    with e show ?thesis by blast
  qed
  from del_ok del load show ?thesis by blast
qed

theorem referential_integrity_witness:
  "has_value (ValidType ''a'' 0) \<and> ''a'' \<in> set (GetClassNames diagram_ab) \<and>
   fst (DeleteClass diagram_ab ''a'') = Inr () \<and>
   relationships (snd (DeleteClass diagram_ab ''a'')) = [] \<and>
   classes (snd (DeleteClass diagram_ab ''a'')) = [class_named ''b''] \<and>
   (\<exists>r \<in> set (j_relationships json_dangling).
        jr_source r \<notin> set (map jc_name (j_classes json_dangling)) \<or>
        jr_destination r \<notin> set (map jc_name (j_classes json_dangling))) \<and>
   example_files ''dangling.json'' = Some (Persisted json_dangling) \<and>
   (\<exists>e. fst (from_json_Diagram (Persisted json_dangling) Diagram_default) = Inl e) \<and>
   (\<exists>e. fst (Load example_files Diagram_default ''dangling.json'') = Inl e)"
proof -
  have f1: "has_value (ValidType ''a'' 0)" "''a'' \<in> set (GetClassNames diagram_ab)"
    "example_files ''dangling.json'' = Some (Persisted json_dangling)"
    "classes (snd (DeleteClass diagram_ab ''a'')) = [class_named ''b'']"
    by code_simp+
  have f2: "\<exists>r \<in> set (j_relationships json_dangling).
        jr_source r \<notin> set (map jc_name (j_classes json_dangling)) \<or>
        jr_destination r \<notin> set (map jc_name (j_classes json_dangling))"
    by (simp add: json_dangling_def json_class_named_def)
  have f3: "filter (\<lambda>r. Relationship_Source r \<noteq> ''a'' \<and> Relationship_Destination r \<noteq> ''a'')
      (relationships diagram_ab) = []"
    by (simp add: diagram_ab_def relationship_ab_def)
  from referential_integrity [of "''a''" diagram_ab json_dangling example_files "''dangling.json''"]
       referential_integrity [of "''a''" Diagram_default json_dangling example_files "''dangling.json''"]
       f1 f2 f3
  show ?thesis by simp
qed

subsection \<open>Claim C5: the classes are not kept sorted by \<open>AddClass\<close>\<close>

text \<open>
  Claim C5 says that after \<open>AddClass(y)\<close> and \<open>AddClass(x)\<close> with \<open>x < y\<close> on an empty diagram
  the classes are in the order \<open>[x, y]\<close>. \<open>AddClass\<close> appends and does not sort: adding
  \<open>b\<close> and then \<open>a\<close> to the empty diagram succeeds twice and leaves the classes in the order
  \<open>[b, a]\<close>, which is not sorted by name. \<open>RenameClass\<close> does sort: renaming \<open>b\<close> to \<open>c\<close>
  there leaves \<open>[a, c]\<close>.
\<close>

theorem AddClass_leaves_classes_unsorted:
  "AddClass Diagram_default ''b'' = (Inr (), \<lparr>classes = [class_named ''b''], relationships = []\<rparr>) \<and>
   AddClass \<lparr>classes = [class_named ''b''], relationships = []\<rparr> ''a''
     = (Inr (), \<lparr>classes = [class_named ''b'', class_named ''a''], relationships = []\<rparr>) \<and>
   GetClassNames \<lparr>classes = [class_named ''b'', class_named ''a''], relationships = []\<rparr> = [''b'', ''a''] \<and>
   ''a'' < ''b'' \<and> \<not> sorted [''b'', ''a''] \<and>
   RenameClass \<lparr>classes = [class_named ''b'', class_named ''a''], relationships = []\<rparr> ''b'' ''c''
     = (Inr (), \<lparr>classes = [class_named ''a'', class_named ''c''], relationships = []\<rparr>)"
  by code_simp

subsection \<open>Claim C6: the order of the methods of a class\<close>

text \<open>
  Claim C6 says that after adding \<open>f(b:int)->void\<close> and \<open>f(a:float,c:int)->void\<close> to a class
  the method whose first parameter type is \<open>float\<close> comes first. In either order of adding
  them both calls succeed and the class lists \<open>f(b:int)\<close> first and \<open>f(a:float,c:int)\<close>
  second.
\<close>

theorem methods_sorted_by_count_before_types:
  "Class_AddMethod Class_default ''f'' ''void'' [param ''b'' ''int'']
     = (Inr (), class_with_methods [method_f_int]) \<and>
   Class_AddMethod (class_with_methods [method_f_int]) ''f'' ''void''
       [param ''a'' ''float'', param ''c'' ''int'']
     = (Inr (), class_with_methods [method_f_int, method_f_float_int]) \<and>
   Class_AddMethod Class_default ''f'' ''void'' [param ''a'' ''float'', param ''c'' ''int'']
     = (Inr (), class_with_methods [method_f_float_int]) \<and>
   Class_AddMethod (class_with_methods [method_f_float_int]) ''f'' ''void'' [param ''b'' ''int'']
     = (Inr (), class_with_methods [method_f_int, method_f_float_int]) \<and>
   map (\<lambda>m. map Parameter_Type (Method_Parameters m)) [method_f_int, method_f_float_int]
     = [[''int''], [''float'', ''int'']]"
  by code_simp

text \<open>
  Claim C6, amended. \<open>Class\<close> sorts its methods with \<open>Method::operator<=>\<close>, which compares
  the method name first, then the number of parameters, then the parameter types pairwise
  by position, then the return type. A new class has no methods, and each of the mutators
  of \<open>Class\<close> that work on its methods (\<open>AddMethod\<close>, \<open>DeleteMethod\<close>, \<open>RenameMethod\<close>,
  \<open>ChangeParameters\<close>, \<open>AddParameter\<close>, \<open>DeleteParameter\<close>, \<open>DeleteParameters\<close> and
  \<open>ChangeParameterType\<close>), called on a class whose methods are sorted in that order, leaves
  them sorted in that order, whether it succeeds or fails. \<open>MethodSignature::operator<=>\<close>
  is the order of the claim (the name, then the types pairwise, a proper prefix being less),
  and the two differ: as methods \<open>f(b:int)\<close> is less than \<open>f(a:float,c:int)\<close>, as signatures
  \<open>f(float,int)\<close> is less than \<open>f(int)\<close>.
\<close>

theorem methods_sorted_by_Method_order:
  "(Method_less m other \<longleftrightarrow>
      (Method_Name m, length (Method_Parameters m),
       map Parameter_Type (Method_Parameters m), Method_ReturnType m)
      < (Method_Name other, length (Method_Parameters other),
         map Parameter_Type (Method_Parameters other), Method_ReturnType other)) \<and>
   methods_sorted Class_default \<and>
   (methods_sorted c \<longrightarrow>
      methods_sorted (snd (Class_AddMethod c name return_type parameters)) \<and>
      methods_sorted (snd (Class_DeleteMethod c sig)) \<and>
      methods_sorted (snd (Class_RenameMethod c sig new_name)) \<and>
      methods_sorted (snd (Class_ChangeParameters c sig new_parameters)) \<and>
      methods_sorted (snd (Class_AddParameter c sig added_name added_type)) \<and>
      methods_sorted (snd (Class_DeleteParameter c sig deleted_name)) \<and>
      methods_sorted (snd (Class_DeleteParameters c sig)) \<and>
      methods_sorted (snd (Class_ChangeParameterType c sig changed_name new_type))) \<and>
   MethodSignature_compare s s' =
      compare3 (MethodSignature_Name s, MethodSignature_ParameterTypes s)
               (MethodSignature_Name s', MethodSignature_ParameterTypes s') \<and>
   Method_less method_f_int method_f_float_int \<and>
   MethodSignature_compare signature_f_float_int signature_f_int = Less"
proof -
  have init: "methods_sorted Class_default"
    by (simp add: methods_sorted_def Class_default_def)
  have ex: "Method_less method_f_int method_f_float_int"
    "MethodSignature_compare signature_f_float_int signature_f_int = Less"
    by code_simp+
  from Method_less_key [of m other] init MethodSignature_compare_key [of s s'] ex
    methods_sorted_AddMethod [of c name return_type parameters]
    methods_sorted_DeleteMethod [of c sig]
    methods_sorted_RenameMethod [of c sig new_name]
    methods_sorted_ChangeParameters [of c sig new_parameters]
    methods_sorted_AddParameter [of c sig added_name added_type]
    methods_sorted_DeleteParameter [of c sig deleted_name]
    methods_sorted_DeleteParameters [of c sig]
    methods_sorted_ChangeParameterType [of c sig changed_name new_type]
  show ?thesis by blast
qed

theorem methods_sorted_by_Method_order_witness:
  "methods_sorted class_f_f \<and>
   method_signatures class_f_f = [(''f'', [''int'']), (''f'', [''float'', ''int''])] \<and>
   method_signatures (snd (Class_AddMethod class_f_f ''e'' ''void'' []))
     = [(''e'', []), (''f'', [''int'']), (''f'', [''float'', ''int''])] \<and>
   methods_sorted (snd (Class_AddMethod class_f_f ''e'' ''void'' [])) \<and>
   method_signatures (snd (Class_DeleteMethod class_f_f signature_f_int))
     = [(''f'', [''float'', ''int''])] \<and>
   methods_sorted (snd (Class_DeleteMethod class_f_f signature_f_int)) \<and>
   method_signatures (snd (Class_RenameMethod class_f_f signature_f_float_int ''e''))
     = [(''e'', [''float'', ''int'']), (''f'', [''int''])] \<and>
   methods_sorted (snd (Class_RenameMethod class_f_f signature_f_float_int ''e'')) \<and>
   method_signatures (snd (Class_ChangeParameters class_f_f signature_f_float_int []))
     = [(''f'', []), (''f'', [''int''])] \<and>
   methods_sorted (snd (Class_ChangeParameters class_f_f signature_f_float_int [])) \<and>
   method_signatures (snd (Class_AddParameter class_f_f signature_f_int ''z'' ''bool''))
     = [(''f'', [''float'', ''int'']), (''f'', [''int'', ''bool''])] \<and>
   methods_sorted (snd (Class_AddParameter class_f_f signature_f_int ''z'' ''bool'')) \<and>
   method_signatures (snd (Class_DeleteParameter class_f_f signature_f_float_int ''c''))
     = [(''f'', [''float'']), (''f'', [''int''])] \<and>
   methods_sorted (snd (Class_DeleteParameter class_f_f signature_f_float_int ''c'')) \<and>
   method_signatures (snd (Class_DeleteParameters class_f_f signature_f_float_int))
     = [(''f'', []), (''f'', [''int''])] \<and>
   methods_sorted (snd (Class_DeleteParameters class_f_f signature_f_float_int)) \<and>
   method_signatures (snd (Class_ChangeParameterType class_f_f signature_f_float_int ''a'' ''bool''))
     = [(''f'', [''int'']), (''f'', [''bool'', ''int''])] \<and>
   methods_sorted (snd (Class_ChangeParameterType class_f_f signature_f_float_int ''a'' ''bool'')) \<and>
   Class_DeleteParameter class_f_f signature_f_float_int ''a''
     = (Inl NewMethodSignatureAlreadyExists, class_f_f) \<and>
   methods_sorted (snd (Class_DeleteParameter class_f_f signature_f_float_int ''a'')) \<and>
   (''f'', 1 :: nat, [''int''], ''void'') < (''f'', 2, [''float'', ''int''], ''void'')"
proof -
  have h: "methods_sorted class_f_f" by code_simp
  have e: "method_signatures class_f_f = [(''f'', [''int'']), (''f'', [''float'', ''int''])]"
    "method_signatures (snd (Class_AddMethod class_f_f ''e'' ''void'' []))
       = [(''e'', []), (''f'', [''int'']), (''f'', [''float'', ''int''])]"
    "method_signatures (snd (Class_DeleteMethod class_f_f signature_f_int))
       = [(''f'', [''float'', ''int''])]"
    "method_signatures (snd (Class_RenameMethod class_f_f signature_f_float_int ''e''))
       = [(''e'', [''float'', ''int'']), (''f'', [''int''])]"
    "method_signatures (snd (Class_ChangeParameters class_f_f signature_f_float_int []))
       = [(''f'', []), (''f'', [''int''])]"
    "method_signatures (snd (Class_AddParameter class_f_f signature_f_int ''z'' ''bool''))
       = [(''f'', [''float'', ''int'']), (''f'', [''int'', ''bool''])]"
    "method_signatures (snd (Class_DeleteParameter class_f_f signature_f_float_int ''c''))
       = [(''f'', [''float'']), (''f'', [''int''])]"
    "method_signatures (snd (Class_DeleteParameters class_f_f signature_f_float_int))
       = [(''f'', []), (''f'', [''int''])]"
    "method_signatures (snd (Class_ChangeParameterType class_f_f signature_f_float_int ''a'' ''bool''))
       = [(''f'', [''int'']), (''f'', [''bool'', ''int''])]"
    "Class_DeleteParameter class_f_f signature_f_float_int ''a''
       = (Inl NewMethodSignatureAlreadyExists, class_f_f)"
    by code_simp+
  have k: "(Method_Name method_f_int, length (Method_Parameters method_f_int),
       map Parameter_Type (Method_Parameters method_f_int), Method_ReturnType method_f_int)
       = (''f'', 1, [''int''], ''void'')"
    "(Method_Name method_f_float_int, length (Method_Parameters method_f_float_int),
       map Parameter_Type (Method_Parameters method_f_float_int), Method_ReturnType method_f_float_int)
       = (''f'', 2, [''float'', ''int''], ''void'')"
    by (simp_all add: method_f_int_def method_f_float_int_def param_def)
  note t1 = methods_sorted_by_Method_order
    [where m = method_f_int and other = method_f_float_int and c = class_f_f
       and sig = signature_f_float_int and name = "''e''" and return_type = "''void''"
       and parameters = "[]" and new_name = "''e''" and new_parameters = "[]"
       and deleted_name = "''c''" and changed_name = "''a''" and new_type = "''bool''"]
  note t2 = methods_sorted_by_Method_order
    [where c = class_f_f and sig = signature_f_int and added_name = "''z''"
       and added_type = "''bool''"]
  note t3 = methods_sorted_by_Method_order
    [where c = class_f_f and sig = signature_f_float_int and deleted_name = "''a''"]
  from t1 h have s1:
    "methods_sorted (snd (Class_AddMethod class_f_f ''e'' ''void'' []))"
    "methods_sorted (snd (Class_RenameMethod class_f_f signature_f_float_int ''e''))"
    "methods_sorted (snd (Class_ChangeParameters class_f_f signature_f_float_int []))"
    "methods_sorted (snd (Class_DeleteParameter class_f_f signature_f_float_int ''c''))"
    "methods_sorted (snd (Class_DeleteParameters class_f_f signature_f_float_int))"
    "methods_sorted (snd (Class_ChangeParameterType class_f_f signature_f_float_int ''a'' ''bool''))"
    by blast+
  from t2 h have s2:
    "methods_sorted (snd (Class_DeleteMethod class_f_f signature_f_int))"
    "methods_sorted (snd (Class_AddParameter class_f_f signature_f_int ''z'' ''bool''))"
    by blast+
  from t3 h have s3:
    "methods_sorted (snd (Class_DeleteParameter class_f_f signature_f_float_int ''a''))"
    by blast
  from t1 have "Method_less method_f_int method_f_float_int \<longleftrightarrow>
      (''f'', 1 :: nat, [''int''], ''void'') < (''f'', 2, [''float'', ''int''], ''void'')"
    unfolding k by blast
  with t1 have lt: "(''f'', 1 :: nat, [''int''], ''void'') < (''f'', 2, [''float'', ''int''], ''void'')"
    by blast
  from h e s1 s2 s3 lt show ?thesis by simp
qed

subsection \<open>Claim C7: what \<open>Field::Rename\<close> validates\<close>

text \<open>
  Claim C7 says that \<open>Field::Rename\<close> runs the validator \<open>Field::From\<close> runs on the name, and
  so fails on a type expression that is not an identifier, such as \<open>x*\<close> or \<open>A<int>\<close>,
  directly and through \<open>Class::RenameField\<close>. The code departs from it: \<open>Field::Rename\<close>
  calls \<^verbatim>\<open>Check<ValidType>(name, "field type")\<close> where \<open>Field::From\<close> calls
  \<^verbatim>\<open>Check<ValidIdentifier>(name, "field name")\<close>. Both renames of the field \<open>a: int\<close>
  succeed, directly and in the class that \<open>AddField(a, int)\<close> builds; and the two validators
  disagree on \<open>A<\<close>, which \<open>Field::From\<close> takes as a name and \<open>Field::Rename\<close> refuses as a
  field type, leaving the field as it was.
\<close>

theorem Field_Rename_runs_type_validator:
  "\<not> is_Identifier ''x*'' \<and>
   Field_Rename field_a ''x*'' = (Inr (), field_a\<lparr>Field_Name := ''x*''\<rparr>) \<and>
   \<not> is_Identifier ''A<int>'' \<and>
   Field_Rename field_a ''A<int>'' = (Inr (), field_a\<lparr>Field_Name := ''A<int>''\<rparr>) \<and>
   Class_AddField Class_default ''a'' ''int'' = (Inr (), class_with_field field_a) \<and>
   Class_RenameField (class_with_field field_a) ''a'' ''x*''
     = (Inr (), class_with_field (field_a\<lparr>Field_Name := ''x*''\<rparr>)) \<and>
   Class_RenameField (class_with_field field_a) ''a'' ''A<int>''
     = (Inr (), class_with_field (field_a\<lparr>Field_Name := ''A<int>''\<rparr>)) \<and>
   Field_From ''A<'' ''int'' = Inr \<lparr>Field_Name = ''A<'', Field_Type = ''int''\<rparr> \<and>
   Field_Rename field_a ''A<'' = (Inl (Invalid ''field type'' ''A<'' ExpectedMore), field_a)"
  by code_simp

subsection \<open>Claim C8: bracketed lists of type expressions\<close>

text \<open>
  Claim C8. Let \<open>A\<close> be an identifier, \<open>t1..tn\<close> (\<open>n\<close> may be 0) type expressions of the
  grammar of the specification (\<open>type_expression\<close>: an identifier, then either any number
  of \<open>*\<close>, or a bracketed comma-separated list of type expressions and any number of \<open>*\<close>),
  and \<open>opn\<close>, \<open>cl\<close> one of the three bracket pairs. Then \<^verbatim>\<open>ValidType\<close> accepts
  \<open>A opn t1,...,tn cl\<close> and returns the offset of its end, which is the same for the three
  pairs; the \<open>ti\<close> may use other brackets than \<open>opn\<close>, as in \<open>A[B(int)]\<close>, and may end in
  \<open>*\<close>, as in \<open>A<int**>\<close> and \<open>A<B<int>*>\<close>. It rejects the text without the closing
  bracket, the text closed by a closer of another kind, and the text with a comma after
  \<open>tn\<close>, closed or not.
\<close>

theorem ValidType_bracketed_type_lists:
  assumes A: "is_Identifier A" and ts: "\<forall>t \<in> set ts. type_expression t"
    and cl: "bracket_pair opn cl"
  shows "ValidType (A @ opn # join_commas ts @ [cl]) 0
           = Inr (length A + length (join_commas ts) + 2) \<and>
         \<not> has_value (ValidType (A @ opn # join_commas ts) 0) \<and>
         (\<forall>cl'. is_closer cl' \<and> cl' \<noteq> cl \<longrightarrow>
            \<not> has_value (ValidType (A @ opn # join_commas ts @ [cl']) 0)) \<and>
         \<not> has_value (ValidType (A @ opn # join_commas ts @ [CHR '','', cl]) 0) \<and>
         \<not> has_value (ValidType (A @ opn # join_commas ts @ [CHR '','']) 0)"
proof -
  from ts have "list_all consumed_in_full ts"
    by (simp add: list_all_iff type_expression_consumed)
  moreover from cl have "closer opn = Some cl" by (simp add: bracket_pair_closer)
  ultimately show ?thesis using A by (rule ValidType_list_of_consumed [rotated 1])
qed

theorem ValidType_bracketed_type_lists_witness:
  "is_Identifier ''A'' \<and>
   type_expression ''int**'' \<and> type_expression ''B<int>*'' \<and> type_expression ''B(int)'' \<and>
   bracket_pair CHR ''['' CHR '']'' \<and> bracket_pair CHR ''<'' CHR ''>'' \<and>
   bracket_pair CHR ''('' CHR '')'' \<and>
   ValidType ''A[int**,B<int>*]'' 0 = Inr 16 \<and>
   ValidType ''A<int**,B<int>*>'' 0 = Inr 16 \<and>
   ValidType ''A(int**,B<int>*)'' 0 = Inr 16 \<and>
   ValidType ''A<int**>'' 0 = Inr 8 \<and>
   ValidType ''A<B<int>*>'' 0 = Inr 10 \<and>
   ValidType ''A[]'' 0 = Inr 3 \<and> ValidType ''A<>'' 0 = Inr 3 \<and> ValidType ''A()'' 0 = Inr 3 \<and>
   ValidType ''A[B(int)]'' 0 = Inr 9 \<and>
   \<not> has_value (ValidType ''A[int**,B<int>*'' 0) \<and>
   is_closer CHR ''>'' \<and>
   \<not> has_value (ValidType ''A[int**,B<int>*>'' 0) \<and>
   \<not> has_value (ValidType ''A[int**,B<int>*,]'' 0) \<and>
   \<not> has_value (ValidType ''A[int**,B<int>*,'' 0)"
proof -
  have A: "is_Identifier ''A''" and B: "is_Identifier ''B''" and int: "is_Identifier ''int''"
    by code_simp+
  have p: "bracket_pair CHR ''['' CHR '']''" "bracket_pair CHR ''<'' CHR ''>''"
    "bracket_pair CHR ''('' CHR '')''"
    by (simp_all add: bracket_pair_def)
  have t0: "type_expression ''int''"
    using type_expression.pointer [OF int, of 0] by simp
  have t1: "type_expression ''int**''"
    using type_expression.pointer [OF int, of 2] by (simp add: numeral_2_eq_2)
  have t2: "type_expression ''B<int>*''"
    using type_expression.bracketed [OF B p(2), of "[''int'']" 1] t0 by simp
  have t3: "type_expression ''B(int)''"
    using type_expression.bracketed [OF B p(3), of "[''int'']" 0] t0 by simp
  have ts: "\<forall>t \<in> set [''int**'', ''B<int>*'']. type_expression t" using t1 t2 by simp
  have ts1: "\<forall>t \<in> set [''int**'']. type_expression t" using t1 by simp
  have ts2: "\<forall>t \<in> set [''B<int>*'']. type_expression t" using t2 by simp
  have ts3: "\<forall>t \<in> set [''B(int)'']. type_expression t" using t3 by simp
  have ts0: "\<forall>t \<in> set ([] :: string list). type_expression t" by simp
  have a1: "ValidType ''A[int**,B<int>*]'' 0 = Inr 16"
    using ValidType_bracketed_type_lists [OF A ts p(1)] by simp
  have a2: "ValidType ''A<int**,B<int>*>'' 0 = Inr 16"
    using ValidType_bracketed_type_lists [OF A ts p(2)] by simp
  have a3: "ValidType ''A(int**,B<int>*)'' 0 = Inr 16"
    using ValidType_bracketed_type_lists [OF A ts p(3)] by simp
  have s1: "ValidType ''A<int**>'' 0 = Inr 8"
    using ValidType_bracketed_type_lists [OF A ts1 p(2)] by simp
  have s2: "ValidType ''A<B<int>*>'' 0 = Inr 10"
    using ValidType_bracketed_type_lists [OF A ts2 p(2)] by simp
  have z: "ValidType ''A[]'' 0 = Inr 3" "ValidType ''A<>'' 0 = Inr 3" "ValidType ''A()'' 0 = Inr 3"
    using ValidType_bracketed_type_lists [OF A ts0 p(1)]
          ValidType_bracketed_type_lists [OF A ts0 p(2)]
          ValidType_bracketed_type_lists [OF A ts0 p(3)]
    by simp_all
  have n: "ValidType ''A[B(int)]'' 0 = Inr 9"
    using ValidType_bracketed_type_lists [OF A ts3 p(1)] by simp
  have r1: "\<not> has_value (ValidType ''A[int**,B<int>*'' 0)"
    "\<not> has_value (ValidType ''A[int**,B<int>*,]'' 0)"
    "\<not> has_value (ValidType ''A[int**,B<int>*,'' 0)"
    using ValidType_bracketed_type_lists [OF A ts p(1)] by simp_all
  have ic: "is_closer CHR ''>''" by (simp add: is_closer_def)
  from ValidType_bracketed_type_lists [OF A ts p(1)]
  have "is_closer CHR ''>'' \<and> CHR ''>'' \<noteq> CHR '']'' \<longrightarrow>
      \<not> has_value (ValidType (''A'' @ CHR ''['' # join_commas [''int**'', ''B<int>*''] @ [CHR ''>'']) 0)"
    by blast
  with ic have r2: "\<not> has_value (ValidType ''A[int**,B<int>*>'' 0)" by simp
  from A t1 t2 t3 p a1 a2 a3 s1 s2 z n r1 ic r2 show ?thesis by simp
qed

subsection \<open>Claim C9: the timeline is a branch-truncating linear history\<close>

text \<open>
  Claim C9. In a timeline whose cursor is within the history: \<open>Add\<close> of an untrackable
  command changes nothing; \<open>Add\<close> of a trackable command keeps the commands before the
  cursor, drops every command at or after it, puts the new command at the cursor and
  advances the cursor by one. \<open>Undo\<close> fails exactly when the cursor is 0 (and then changes
  nothing), and otherwise moves the cursor back by one and returns the command there.
  \<open>Redo\<close> fails exactly when the cursor equals the length of the history (and then changes
  nothing), and otherwise returns the command at the cursor and advances it. All three
  keep the cursor within the history.
\<close>

theorem Timeline_linear_history:
  assumes inv: "index tml \<le> length (timeline tml)"
  shows "(\<not> Trackable cmd \<longrightarrow> Timeline_Add tml cmd = tml) \<and>
         (Trackable cmd \<longrightarrow>
            length (timeline (Timeline_Add tml cmd)) = index tml + 1 \<and>
            (\<forall>i < index tml. timeline (Timeline_Add tml cmd) ! i = timeline tml ! i) \<and>
            timeline (Timeline_Add tml cmd) ! index tml = cmd \<and>
            index (Timeline_Add tml cmd) = index tml + 1) \<and>
         ((\<exists>e. fst (Timeline_Undo tml) = Inl e) \<longleftrightarrow> index tml = 0) \<and>
         (index tml = 0 \<longrightarrow> snd (Timeline_Undo tml) = tml) \<and>
         (index tml \<noteq> 0 \<longrightarrow>
            Timeline_Undo tml =
              (Inr (timeline tml ! (index tml - 1)), tml\<lparr>index := index tml - 1\<rparr>)) \<and>
         ((\<exists>e. fst (Timeline_Redo tml) = Inl e) \<longleftrightarrow> index tml = length (timeline tml)) \<and>
         (index tml = length (timeline tml) \<longrightarrow> snd (Timeline_Redo tml) = tml) \<and>
         (index tml \<noteq> length (timeline tml) \<longrightarrow>
            Timeline_Redo tml =
              (Inr (timeline tml ! index tml), tml\<lparr>index := index tml + 1\<rparr>)) \<and>
         index (Timeline_Add tml cmd) \<le> length (timeline (Timeline_Add tml cmd)) \<and>
         index (snd (Timeline_Undo tml)) \<le> length (timeline (snd (Timeline_Undo tml))) \<and>
         index (snd (Timeline_Redo tml)) \<le> length (timeline (snd (Timeline_Redo tml)))"
proof -
  have add_untracked: "\<not> Trackable cmd \<longrightarrow> Timeline_Add tml cmd = tml"
    by (simp add: Timeline_Add_def)
  have add_tracked: "Trackable cmd \<longrightarrow>
            length (timeline (Timeline_Add tml cmd)) = index tml + 1 \<and>
            (\<forall>i < index tml. timeline (Timeline_Add tml cmd) ! i = timeline tml ! i) \<and>
            timeline (Timeline_Add tml cmd) ! index tml = cmd \<and>
            index (Timeline_Add tml cmd) = index tml + 1"
    using inv by (simp add: Timeline_Add_def nth_append min_absorb2)
  have undo: "((\<exists>e. fst (Timeline_Undo tml) = Inl e) \<longleftrightarrow> index tml = 0) \<and>
         (index tml = 0 \<longrightarrow> snd (Timeline_Undo tml) = tml) \<and>
         (index tml \<noteq> 0 \<longrightarrow>
            Timeline_Undo tml =
              (Inr (timeline tml ! (index tml - 1)), tml\<lparr>index := index tml - 1\<rparr>))"
    by (simp add: Timeline_Undo_def Let_def)
  have redo: "((\<exists>e. fst (Timeline_Redo tml) = Inl e) \<longleftrightarrow> index tml = length (timeline tml)) \<and>
         (index tml = length (timeline tml) \<longrightarrow> snd (Timeline_Redo tml) = tml) \<and>
         (index tml \<noteq> length (timeline tml) \<longrightarrow>
            Timeline_Redo tml =
              (Inr (timeline tml ! index tml), tml\<lparr>index := index tml + 1\<rparr>))"
    using inv by (auto simp: Timeline_Redo_def)
  have keep: "index (Timeline_Add tml cmd) \<le> length (timeline (Timeline_Add tml cmd)) \<and>
         index (snd (Timeline_Undo tml)) \<le> length (timeline (snd (Timeline_Undo tml))) \<and>
         index (snd (Timeline_Redo tml)) \<le> length (timeline (snd (Timeline_Redo tml)))"
    using inv by (auto simp: Timeline_Add_def Timeline_Undo_def Timeline_Redo_def Let_def min_absorb2)
  from add_untracked add_tracked undo redo keep show ?thesis by blast
qed

theorem Timeline_linear_history_witness:
  "index tml_ab \<le> length (timeline tml_ab) \<and>
   Trackable (AddClassCommand ''c'') \<and>
   timeline (Timeline_Add tml_ab (AddClassCommand ''c'')) = [AddClassCommand ''a'', AddClassCommand ''c''] \<and>
   index (Timeline_Add tml_ab (AddClassCommand ''c'')) = 2 \<and>
   \<not> Trackable ListAllCommand \<and>
   Timeline_Add tml_ab ListAllCommand = tml_ab \<and>
   index tml_ab \<noteq> 0 \<and>
   Timeline_Undo tml_ab = (Inr (AddClassCommand ''a''), tml_ab\<lparr>index := 0\<rparr>) \<and>
   index tml_ab \<noteq> length (timeline tml_ab) \<and>
   Timeline_Redo tml_ab = (Inr (AddClassCommand ''b''), tml_ab\<lparr>index := 2\<rparr>) \<and>
   index Timeline_default = 0 \<and>
   index Timeline_default = length (timeline Timeline_default) \<and>
   (\<exists>e. fst (Timeline_Undo Timeline_default) = Inl e) \<and>
   (\<exists>e. fst (Timeline_Redo Timeline_default) = Inl e) \<and>
   snd (Timeline_Undo Timeline_default) = Timeline_default \<and>
   snd (Timeline_Redo Timeline_default) = Timeline_default"
proof -
  have inv: "index tml_ab \<le> length (timeline tml_ab)"
    by (simp add: tml_ab_def)
  have inv0: "index Timeline_default \<le> length (timeline Timeline_default)"
    by (simp add: Timeline_default_def)
  have tr: "Trackable (AddClassCommand ''c'')" by (simp add: AddClassCommand_def)
  have ntr: "\<not> Trackable ListAllCommand" by (simp add: ListAllCommand_def)
  have i1: "index tml_ab = 1" "timeline tml_ab = [AddClassCommand ''a'', AddClassCommand ''b'']"
    by (simp_all add: tml_ab_def)
  have i0: "index Timeline_default = 0" "timeline Timeline_default = []"
    by (simp_all add: Timeline_default_def)
  have add_c: "timeline (Timeline_Add tml_ab (AddClassCommand ''c'')) = [AddClassCommand ''a'', AddClassCommand ''c'']"
  proof (rule nth_equalityI)
    show "length (timeline (Timeline_Add tml_ab (AddClassCommand ''c''))) = length [AddClassCommand ''a'', AddClassCommand ''c'']"
      using Timeline_linear_history [OF inv, of "AddClassCommand ''c''"] tr i1 by simp
  next
    fix i assume "i < length (timeline (Timeline_Add tml_ab (AddClassCommand ''c'')))"
    then have "i < 2" using Timeline_linear_history [OF inv, of "AddClassCommand ''c''"] tr i1 by simp
    then have "i = 0 \<or> i = 1" by auto
    then show "timeline (Timeline_Add tml_ab (AddClassCommand ''c'')) ! i = [AddClassCommand ''a'', AddClassCommand ''c''] ! i"
      using Timeline_linear_history [OF inv, of "AddClassCommand ''c''"] tr i1 by auto
  qed
  show ?thesis
    using Timeline_linear_history [OF inv, of "AddClassCommand ''c''"]
          Timeline_linear_history [OF inv, of ListAllCommand]
          Timeline_linear_history [OF inv0, of ListAllCommand]
          inv tr ntr i1 i0 add_c
    by simp
qed

subsection \<open>Claim C10: a no-op endpoint change is a conflict\<close>

text \<open>
  Claim C10. Let a diagram contain a relationship \<open>r\<close> with source \<open>s\<close> and destination \<open>d\<close>,
  built by the validating factory (as every relationship of a diagram is). Then
  \<open>ChangeRelationshipSource(s, d, s)\<close> and \<open>ChangeRelationshipDestination(s, d, d)\<close> both return
  the error that a relationship between \<open>s\<close> and \<open>d\<close> already exists, and leave the diagram
  unchanged: the lookup of the resulting pair finds \<open>r\<close> itself, whatever its type.
\<close>

theorem no_op_endpoint_change_conflicts:
  assumes "r \<in> set (relationships d)"
    and "Relationship_From (Relationship_Source r) (Relationship_Destination r) (Relationship_Type r) = Inr r"
  shows "ChangeRelationshipSource d (Relationship_Source r) (Relationship_Destination r) (Relationship_Source r)
           = (Inl (RelationshipBetweenAlreadyExists (Relationship_Source r) (Relationship_Destination r)), d) \<and>
         ChangeRelationshipDestination d (Relationship_Source r) (Relationship_Destination r) (Relationship_Destination r)
           = (Inl (RelationshipBetweenAlreadyExists (Relationship_Source r) (Relationship_Destination r)), d)"
proof -
  let ?s = "Relationship_Source r" and ?d = "Relationship_Destination r"
  from assms(2) have "has_value (Check ValidType ?s ''class name'')"
    by (cases "Check ValidType ?s ''class name''") (simp_all add: Relationship_From_def)
  then have vs: "has_value (ValidType ?s 0)"
    by (simp add: Check_cases split: if_splits)
  from assms(2) have "has_value (Check ValidType ?d ''class name'')"
    by (cases "Check ValidType ?s ''class name''"; cases "Check ValidType ?d ''class name''")
       (simp_all add: Relationship_From_def)
  then have vd: "has_value (ValidType ?d 0)"
    by (simp add: Check_cases split: if_splits)
  from GetRelationship_found [OF vs vd assms(1) refl refl]
  obtain i where "GetRelationship d ?s ?d = Inr i"
    by (auto simp: has_value_iff)
  then show ?thesis
    by (simp add: ChangeRelationshipSource_def ChangeRelationshipDestination_def)
qed

theorem no_op_endpoint_change_conflicts_witness:
  "relationship_ab \<in> set (relationships diagram_ab) \<and>
   Relationship_From ''a'' ''b'' Aggregation = Inr relationship_ab \<and>
   snd (AddRelationship (snd (AddClass (snd (AddClass Diagram_default ''a'')) ''b'')) ''a'' ''b'' Aggregation)
     = diagram_ab \<and>
   ChangeRelationshipSource diagram_ab ''a'' ''b'' ''a''
     = (Inl (RelationshipBetweenAlreadyExists ''a'' ''b''), diagram_ab) \<and>
   ChangeRelationshipDestination diagram_ab ''a'' ''b'' ''b''
     = (Inl (RelationshipBetweenAlreadyExists ''a'' ''b''), diagram_ab)"
proof -
  have mem: "relationship_ab \<in> set (relationships diagram_ab)"
    by (simp add: diagram_ab_def)
  have sel: "Relationship_Source relationship_ab = ''a''"
    "Relationship_Destination relationship_ab = ''b''"
    "Relationship_Type relationship_ab = Aggregation"
    by (simp_all add: relationship_ab_def)
  have fr: "Relationship_From ''a'' ''b'' Aggregation = Inr relationship_ab"
    by code_simp
  have built: "snd (AddRelationship (snd (AddClass (snd (AddClass Diagram_default ''a'')) ''b'')) ''a'' ''b'' Aggregation)
     = diagram_ab"
    by code_simp
  from no_op_endpoint_change_conflicts [of relationship_ab diagram_ab] mem fr sel built
  show ?thesis by simp
qed

end
